theory Spec2Isabelle
  imports Main "HOL-Library.Sublist"
begin

section \<open>Graph Banner Plus: the ignore matcher, the view pool and the placement engine\<close>

text \<open>
  A shallow embedding of \<^verbatim>\<open>src/main.js\<close>. A JavaScript string is a \<open>string\<close>; a
  \<open>char\<close> stands for one UTF-16 code unit below 256, so the white space that
  \<^verbatim>\<open>String.prototype.trim\<close> strips and the line terminators that the regular
  expression dot refuses are the ones of that range.
\<close>

subsection \<open>matchIgnore (main.js, lines 46 to 88)\<close>

text \<open>The host's string primitives that \<^verbatim>\<open>matchIgnore\<close> calls.\<close>

definition isLineTerminator :: "char \<Rightarrow> bool" where
  "isLineTerminator c = (c = CHR 0x0A \<or> c = CHR 0x0D)"

definition isTrimmed :: "char \<Rightarrow> bool" where
  "isTrimmed c = (c = CHR 0x09 \<or> c = CHR 0x0A \<or> c = CHR 0x0B \<or> c = CHR 0x0C \<or> c = CHR 0x0D
     \<or> c = CHR 0x20 \<or> c = CHR 0xA0)"

definition trim :: "string \<Rightarrow> string" where
  "trim s = rev (dropWhile isTrimmed (rev (dropWhile isTrimmed s)))"

fun startsWith :: "string \<Rightarrow> char \<Rightarrow> bool" where
  "startsWith [] c = False"
| "startsWith (x # xs) c = (x = c)"

fun str_includes :: "string \<Rightarrow> string \<Rightarrow> bool" where
  "str_includes [] p = (p = [])"
| "str_includes (x # xs) p = (prefix p (x # xs) \<or> str_includes xs p)"

text \<open>
  \<^verbatim>\<open>specials\<close> is the character class of \<^verbatim>\<open>toRegExp\<close>: the backslash and
  \<^verbatim>\<open>^ $ + ? . ( ) | [ ] { }\<close>, thirteen characters, each of which
  \<^verbatim>\<open>pattern.replace\<close> prefixes with a backslash. The star is not among them.
\<close>

definition backslash :: char where
  "backslash = CHR 0x5C"

definition specials :: "char list" where
  "specials = [backslash, CHR ''^'', CHR ''$'', CHR ''+'', CHR ''?'', CHR ''.'', CHR ''('',
     CHR '')'', CHR ''|'', CHR ''['', CHR '']'', CHR ''{'', CHR ''}'']"

text \<open>
  The two global replacements of \<^verbatim>\<open>toRegExp\<close>: every special character gets a
  backslash in front, then every star becomes \<^verbatim>\<open>.*\<close>; the source of the
  expression is the result between \<^verbatim>\<open>^\<close> and \<^verbatim>\<open>$\<close>.
\<close>

definition escape_specials :: "string \<Rightarrow> string" where
  "escape_specials pattern = concat (map (\<lambda>c. if c \<in> set specials then [backslash, c] else [c]) pattern)"

definition replace_stars :: "string \<Rightarrow> string" where
  "replace_stars escaped = concat (map (\<lambda>c. if c = CHR ''*'' then ''.*'' else [c]) escaped)"

definition reSource :: "string \<Rightarrow> string" where
  "reSource pattern = ''^'' @ replace_stars (escape_specials pattern) @ ''$''"

text \<open>
  The host's \<^verbatim>\<open>RegExp\<close>, for the sources \<^verbatim>\<open>toRegExp\<close> can build: a \<^verbatim>\<open>^\<close>, then
  literal characters, backslash escapes of syntax characters and \<^verbatim>\<open>.*\<close>, then a
  \<^verbatim>\<open>$\<close>. The constructor result \<open>None\<close> stands for the exception that
  \<^verbatim>\<open>toRegExp\<close> catches. No flag is set: the dot refuses line terminators, and
  \<^verbatim>\<open>^\<close> and \<^verbatim>\<open>$\<close> match at the two ends of the input only.
\<close>

datatype re_atom = Lit char | DotStar

fun parse_atoms :: "string \<Rightarrow> re_atom list option" where
  "parse_atoms [] = None"
| "parse_atoms [c] = (if c = CHR ''$'' then Some [] else None)"
| "parse_atoms (c # d # rest) =
     (if c = backslash then
        (if d \<in> set specials \<or> d = CHR ''*'' then map_option (Cons (Lit d)) (parse_atoms rest)
         else None)
      else if c = CHR ''.'' \<and> d = CHR ''*'' then map_option (Cons DotStar) (parse_atoms rest)
      else if c \<in> set specials \<or> c = CHR ''*'' then None
      else map_option (Cons (Lit c)) (parse_atoms (d # rest)))"

fun new_RegExp :: "string \<Rightarrow> re_atom list option" where
  "new_RegExp [] = None"
| "new_RegExp (c # rest) = (if c = CHR ''^'' then parse_atoms rest else None)"

fun re_test :: "re_atom list \<Rightarrow> string \<Rightarrow> bool" where
  "re_test [] s = (s = [])"
| "re_test (Lit c # r) [] = False"
| "re_test (Lit c # r) (x # xs) = (x = c \<and> re_test r xs)"
| "re_test (DotStar # r) [] = re_test r []"
| "re_test (DotStar # r) (x # xs) =
     (re_test r (x # xs) \<or> (\<not> isLineTerminator x \<and> re_test (DotStar # r) xs))"

definition toRegExp :: "string \<Rightarrow> re_atom list option" where
  "toRegExp pattern = new_RegExp (reSource pattern)"

text \<open>
  The loop body, with the running \<^verbatim>\<open>ignored\<close> passed along. \<^verbatim>\<open>if (!raw) continue\<close>
  skips the empty string; \<^verbatim>\<open>p.slice(1)\<close> is the tail of a line that starts with
  \<^verbatim>\<open>!\<close>.
\<close>

definition isMatch :: "string \<Rightarrow> string \<Rightarrow> bool" where
  "isMatch p path =
     (if CHR ''*'' \<in> set p then
        (case toRegExp p of None \<Rightarrow> False | Some re \<Rightarrow> re_test re path)
      else str_includes path p)"

fun matchIgnore_loop :: "string \<Rightarrow> string list \<Rightarrow> bool \<Rightarrow> bool" where
  "matchIgnore_loop path [] ignored = ignored"
| "matchIgnore_loop path (raw # rest) ignored =
     (if raw = [] then matchIgnore_loop path rest ignored
      else
        let p = trim raw in
        if p = [] \<or> startsWith p (CHR ''#'') then matchIgnore_loop path rest ignored
        else if startsWith p (CHR ''!'') then
          (let p' = trim (tl p) in
           if p' = [] then matchIgnore_loop path rest ignored
           else matchIgnore_loop path rest (if isMatch p' path then False else ignored))
        else matchIgnore_loop path rest (if isMatch p path then True else ignored))"

text \<open>
  \<^verbatim>\<open>patterns\<close> is \<open>None\<close> when the setting is undefined or not an array
  (\<^verbatim>\<open>!patterns || !Array.isArray(patterns)\<close>).
\<close>

definition matchIgnore :: "string \<Rightarrow> string list option \<Rightarrow> bool" where
  "matchIgnore path patterns =
     (case patterns of
        None \<Rightarrow> False
      | Some ps \<Rightarrow> if ps = [] then False else matchIgnore_loop path ps False)"

subsection \<open>Last match wins\<close>

text \<open>
  The matcher as the specification words it. A line gives a rule unless it is blank or a
  comment after trimming; a leading \<^verbatim>\<open>!\<close> negates the rule and is stripped (the rest
  is trimmed again, and an empty rest gives no rule). A pattern with a star is an
  anchored wildcard pattern: it must cover the whole path, every other character
  standing for itself and a star for a run of characters, none of them a line
  terminator (the star is compiled to \<^verbatim>\<open>.*\<close>). A pattern without a star matches
  the paths that contain it.
\<close>

definition line_rule :: "string \<Rightarrow> (bool \<times> string) option" where
  "line_rule raw =
     (let p = trim raw in
      if p = [] \<or> prefix ''#'' p then None
      else if prefix ''!'' p then
        (if trim (tl p) = [] then None else Some (True, trim (tl p)))
      else Some (False, p))"

fun wildcard_match :: "string \<Rightarrow> string \<Rightarrow> bool" where
  "wildcard_match [] s = (s = [])"
| "wildcard_match (c # p) s =
     (if c = CHR ''*'' then
        (\<exists>n. n \<le> length s \<and> \<not> list_ex isLineTerminator (take n s) \<and> wildcard_match p (drop n s))
      else (\<exists>t. s = c # t \<and> wildcard_match p t))"

definition rule_matches :: "string \<Rightarrow> string \<Rightarrow> bool" where
  "rule_matches p path = (if CHR ''*'' \<in> set p then wildcard_match p path else sublist p path)"

definition atom_of :: "char \<Rightarrow> re_atom" where
  "atom_of c = (if c = CHR ''*'' then DotStar else Lit c)"

lemma str_includes_sublist: "str_includes path p = sublist p path"
  by (induction path) (auto simp: sublist_Cons_right)

lemma parse_atoms_literal:
  "c \<notin> set specials \<Longrightarrow> c \<noteq> CHR ''*'' \<Longrightarrow> rest \<noteq> [] \<Longrightarrow>
   parse_atoms (c # rest) = map_option (Cons (Lit c)) (parse_atoms rest)"
  by (cases rest) (auto simp: specials_def)

lemma parse_atoms_compiled:
  "parse_atoms (replace_stars (escape_specials p) @ ''$'') = Some (map atom_of p)"
proof (induction p)
  case Nil
  show ?case by (simp add: replace_stars_def escape_specials_def)
next
  case (Cons c p)
  let ?rest = "replace_stars (escape_specials p) @ ''$''"
  have rest: "?rest \<noteq> []" by simp
  consider (special) "c \<in> set specials" | (star) "c = CHR ''*''"
    | (plain) "c \<notin> set specials" "c \<noteq> CHR ''*''" by blast
  then show ?case
  proof cases
    case special
    then have "c \<noteq> CHR ''*''" by (auto simp: specials_def backslash_def)
    with special have "replace_stars (escape_specials (c # p)) @ ''$'' = backslash # c # ?rest"
      by (simp add: replace_stars_def escape_specials_def backslash_def)
    with special Cons.IH \<open>c \<noteq> CHR ''*''\<close> show ?thesis
      by (simp add: atom_of_def)
  next
    case star
    then have "c \<notin> set specials" by (simp add: specials_def backslash_def)
    with star have "replace_stars (escape_specials (c # p)) @ ''$'' = CHR ''.'' # CHR ''*'' # ?rest"
      by (simp add: replace_stars_def escape_specials_def)
    with star Cons.IH show ?thesis
      by (simp add: atom_of_def backslash_def)
  next
    case plain
    then have "replace_stars (escape_specials (c # p)) @ ''$'' = c # ?rest"
      by (simp add: replace_stars_def escape_specials_def)
    with plain Cons.IH rest show ?thesis
      by (simp add: parse_atoms_literal atom_of_def del: parse_atoms.simps)
  qed
qed

lemma toRegExp_compiles: "toRegExp p = Some (map atom_of p)"
  using parse_atoms_compiled [of p] by (simp add: toRegExp_def reSource_def)

lemma re_test_DotStar:
  "re_test (DotStar # r) s =
     (\<exists>n. n \<le> length s \<and> \<not> list_ex isLineTerminator (take n s) \<and> re_test r (drop n s))"
proof (induction s)
  case Nil
  show ?case by simp
next
  case (Cons x xs)
  show ?case (is "?L = ?R")
  proof
    assume ?L
    then consider "re_test r (x # xs)" | "\<not> isLineTerminator x" "re_test (DotStar # r) xs" by auto
    then show ?R
    proof cases
      case 1
      then show ?thesis by (intro exI [of _ 0]) simp
    next
      case 2
      with Cons.IH obtain n where "n \<le> length xs" "\<not> list_ex isLineTerminator (take n xs)"
        "re_test r (drop n xs)" by auto
      with 2 show ?thesis by (intro exI [of _ "Suc n"]) simp
    qed
  next
    assume ?R
    then obtain n where n: "n \<le> length (x # xs)" "\<not> list_ex isLineTerminator (take n (x # xs))"
      "re_test r (drop n (x # xs))" by blast
    show ?L
    proof (cases n)
      case 0
      with n show ?thesis by simp
    next
      case (Suc m)
      with n have "m \<le> length xs" "\<not> list_ex isLineTerminator (take m xs)" "re_test r (drop m xs)"
        "\<not> isLineTerminator x" by auto
      with Cons.IH show ?thesis by auto
    qed
  qed
qed

lemma re_test_wildcard: "re_test (map atom_of p) s = wildcard_match p s"
proof (induction p arbitrary: s)
  case Nil
  show ?case by simp
next
  case (Cons c p)
  show ?case
  proof (cases "c = CHR ''*''")
    case True
    then show ?thesis using Cons.IH by (simp add: atom_of_def re_test_DotStar del: re_test.simps)
  next
    case False
    then show ?thesis using Cons.IH by (cases s) (auto simp: atom_of_def)
  qed
qed

lemma isMatch_rule_matches: "isMatch p path = rule_matches p path"
  by (simp add: isMatch_def rule_matches_def toRegExp_compiles re_test_wildcard str_includes_sublist)

lemma startsWith_prefix: "startsWith p c = prefix [c] p"
  by (cases p) auto

definition last_match :: "string \<Rightarrow> string list \<Rightarrow> (bool \<times> string) option" where
  "last_match path ps = find (\<lambda>r. rule_matches (snd r) path) (rev (List.map_filter line_rule ps))"

lemma find_snoc: "find P (xs @ [x]) = (case find P xs of None \<Rightarrow> (if P x then Some x else None) | Some y \<Rightarrow> Some y)"
  by (induction xs) auto

lemma line_rule_cases:
  "line_rule raw = None \<longleftrightarrow>
     (trim raw = [] \<or> startsWith (trim raw) (CHR ''#'') \<or>
      (startsWith (trim raw) (CHR ''!'') \<and> trim (tl (trim raw)) = []))"
  "line_rule raw = Some (True, q) \<longleftrightarrow>
     (trim raw \<noteq> [] \<and> \<not> startsWith (trim raw) (CHR ''#'') \<and> startsWith (trim raw) (CHR ''!'') \<and>
      trim (tl (trim raw)) \<noteq> [] \<and> q = trim (tl (trim raw)))"
  "line_rule raw = Some (False, q) \<longleftrightarrow>
     (trim raw \<noteq> [] \<and> \<not> startsWith (trim raw) (CHR ''#'') \<and> \<not> startsWith (trim raw) (CHR ''!'') \<and>
      q = trim raw)"
  by (auto simp: line_rule_def Let_def startsWith_prefix)

lemma trim_Nil: "trim [] = []"
  by (simp add: trim_def)

lemma matchIgnore_loop_step:
  "matchIgnore_loop path (raw # rest) ignored =
     matchIgnore_loop path rest
       (case line_rule raw of None \<Rightarrow> ignored
        | Some r \<Rightarrow> if isMatch (snd r) path then \<not> fst r else ignored)"
proof (cases "line_rule raw")
  case None
  then have c: "trim raw = [] \<or> startsWith (trim raw) (CHR ''#'') \<or>
      (startsWith (trim raw) (CHR ''!'') \<and> trim (tl (trim raw)) = [])"
    by (simp add: line_rule_cases)
  show ?thesis unfolding None using c by (auto simp: Let_def trim_Nil)
next
  case (Some r)
  obtain negate q where r: "r = (negate, q)" by (cases r)
  show ?thesis
  proof (cases negate)
    case True
    with Some r have s: "line_rule raw = Some (True, q)" by simp
    then have c: "trim raw \<noteq> []" "\<not> startsWith (trim raw) (CHR ''#'')" "startsWith (trim raw) (CHR ''!'')"
      "trim (tl (trim raw)) \<noteq> []" "q = trim (tl (trim raw))"
      by (simp_all add: line_rule_cases)
    show ?thesis unfolding s using c by (auto simp: Let_def trim_Nil)
  next
    case False
    with Some r have s: "line_rule raw = Some (False, q)" by simp
    then have c: "trim raw \<noteq> []" "\<not> startsWith (trim raw) (CHR ''#'')" "\<not> startsWith (trim raw) (CHR ''!'')"
      "q = trim raw"
      by (simp_all add: line_rule_cases)
    show ?thesis unfolding s using c by (auto simp: Let_def trim_Nil)
  qed
qed

lemma last_match_Cons:
  "last_match path (raw # rest) =
     (case last_match path rest of
        Some r \<Rightarrow> Some r
      | None \<Rightarrow> (case line_rule raw of None \<Rightarrow> None
                 | Some r \<Rightarrow> if rule_matches (snd r) path then Some r else None))"
  by (cases "line_rule raw") (simp_all add: last_match_def List.map_filter_simps find_snoc split: option.splits)

lemma matchIgnore_loop_last_match:
  "matchIgnore_loop path ps ignored =
     (case last_match path ps of None \<Rightarrow> ignored | Some r \<Rightarrow> \<not> fst r)"
proof (induction ps arbitrary: ignored)
  case Nil
  show ?case by (simp add: last_match_def List.map_filter_simps)
next
  case (Cons raw ps)
  show ?case
    unfolding matchIgnore_loop_step Cons.IH last_match_Cons
    by (simp add: isMatch_rule_matches split: option.splits)
qed

text \<open>
  On a path without line terminators the star stands for any run of characters; a
  line terminator in the path stops it, as the dot of the compiled expression does.
\<close>

lemma wildcard_star_any_run:
  "\<not> list_ex isLineTerminator s \<Longrightarrow>
   wildcard_match (CHR ''*'' # p) s = (\<exists>n. n \<le> length s \<and> wildcard_match p (drop n s))"
  by (auto simp: list_ex_iff dest: in_set_takeD)

lemma star_stops_at_line_terminator:
  "isMatch ''a*'' [CHR ''a'', CHR 0x0A, CHR ''b''] = False"
  by (simp add: isMatch_def toRegExp_compiles atom_of_def isLineTerminator_def)

lemma line_rule_examples:
  "line_rule '''' = None"
  "line_rule ''   '' = None"
  "line_rule '' # note'' = None"
  "line_rule ''! '' = None"
  "line_rule '' !Archive/keep.md '' = Some (True, ''Archive/keep.md'')"
  "line_rule ''Archive/*'' = Some (False, ''Archive/*'')"
  by (simp_all add: line_rule_def trim_def isTrimmed_def)

text \<open>
  Claim C2. For every path and every list of pattern lines, \<^verbatim>\<open>matchIgnore\<close> answers
  with the last rule that matches: the lines are taken in order, blank lines and
  comment lines give no rule, the last matching rule decides (not ignored when it is
  negated, ignored otherwise), and with no matching rule the path is not ignored. A
  pattern with a star matches as an anchored wildcard pattern, one without by
  containment (\<open>rule_matches\<close>). With the two lines \<^verbatim>\<open>Archive/*\<close> and
  \<^verbatim>\<open>!Archive/keep.md\<close> the path \<^verbatim>\<open>Archive/keep.md\<close> is not ignored and
  \<^verbatim>\<open>Archive/x.md\<close> is; with no lines, or no array, nothing is ignored.
\<close>

theorem matchIgnore_last_match_wins:
  "matchIgnore path None = False \<and>
   matchIgnore path (Some []) = False \<and>
   matchIgnore path (Some ps) =
     (case last_match path ps of None \<Rightarrow> False | Some r \<Rightarrow> \<not> fst r) \<and>
   matchIgnore ''Archive/keep.md'' (Some [''Archive/*'', ''!Archive/keep.md'']) = False \<and>
   matchIgnore ''Archive/x.md'' (Some [''Archive/*'', ''!Archive/keep.md'']) = True"
proof -
  have general: "matchIgnore path (Some ps) =
     (case last_match path ps of None \<Rightarrow> False | Some r \<Rightarrow> \<not> fst r)"
    by (cases ps)
       (simp_all add: matchIgnore_def matchIgnore_loop_last_match last_match_def
          List.map_filter_simps del: matchIgnore_loop.simps)
  have keep: "matchIgnore ''Archive/keep.md'' (Some [''Archive/*'', ''!Archive/keep.md'']) = False"
    by code_simp
  have x: "matchIgnore ''Archive/x.md'' (Some [''Archive/*'', ''!Archive/keep.md'']) = True"
    by code_simp
  show ?thesis using general keep x by (simp add: matchIgnore_def)
qed

subsection \<open>Settings (main.js, lines 9 to 36)\<close>

text \<open>
  A field of the settings object is \<open>None\<close> when it is undefined or null. The numeric
  settings are natural numbers: the settings tab refuses a negative or non-numeric
  input, and the slider of \<^verbatim>\<open>maxGraphViews\<close> gives 1 to 5. \<^verbatim>\<open>ignore\<close> holds a
  reference to an array of lines; the arrays live in a store, so that a copy and
  the array it was copied from are told apart. The presets and
  \<^verbatim>\<open>lastAppliedPreset\<close> are left out: nothing below reads them.
\<close>

record settings =
  ignore :: "nat option"
  timeToRemoveLeaf :: "nat option"
  maxGraphViews :: "nat option"
  layoutDebounceMs :: "nat option"
  bannerHeight :: "string option"
  mobileMode :: "string option"
  showInEditMode :: "string option"
  perNoteDisabledPaths :: "string list option"

definition DEFAULT_maxGraphViews :: nat where
  "DEFAULT_maxGraphViews = 2"

definition DEFAULT_layoutDebounceMs :: nat where
  "DEFAULT_layoutDebounceMs = 80"

definition DEFAULT_mobileMode :: string where
  "DEFAULT_mobileMode = ''full''"

definition DEFAULT_showInEditMode :: string where
  "DEFAULT_showInEditMode = ''compact''"

text \<open>
  \<^verbatim>\<open>a || b\<close> on a number and on a string (0 and the empty string are falsy), and
  \<^verbatim>\<open>a ?? b\<close>.
\<close>

definition or_number :: "nat option \<Rightarrow> nat \<Rightarrow> nat" where
  "or_number a b = (case a of None \<Rightarrow> b | Some n \<Rightarrow> if n = 0 then b else n)"

definition or_string :: "string option \<Rightarrow> string \<Rightarrow> string" where
  "or_string a b = (case a of None \<Rightarrow> b | Some s \<Rightarrow> if s = [] then b else s)"

definition nullish :: "'a option \<Rightarrow> 'a option \<Rightarrow> 'a option" where
  "nullish a b = (case a of None \<Rightarrow> b | Some x \<Rightarrow> Some x)"

subsection \<open>The host: documents, views, the graph node, timers\<close>

text \<open>
  \<open>tfile\<close> is the host's file object and \<open>md_view\<close> what a Markdown view answers:
  its file, its mode, and whether \<^verbatim>\<open>find\<close> gives the mode container and the inline
  title with a parent element. Views, leaves and timers are named by numbers. The
  container of view \<open>v\<close> is \<open>ContainerEl v\<close> and the mode container the view shows in
  mode \<open>m\<close> is \<open>ModeContainer v m\<close>, which lies inside the former.
\<close>

record tfile =
  path :: string
  extension :: string

record md_view =
  view_file :: "tfile option"
  getMode :: string
  modeContainerFound :: bool
  titleParentFound :: bool

datatype element = ContainerEl nat | ModeContainer nat string

text \<open>
  The node of a graph view: its CSS classes and, when it has been inserted under a
  note title, the view and mode of the mode container it sits in. A node that is in
  its own leaf or has been removed is inside nothing.
\<close>

record gnode =
  classes :: "string set"
  inside :: "(nat \<times> string) option"

fun contains :: "element \<Rightarrow> gnode \<Rightarrow> bool" where
  "contains (ContainerEl v) n = (case inside n of None \<Rightarrow> False | Some vm \<Rightarrow> fst vm = v)"
| "contains (ModeContainer v m) n = (inside n = Some (v, m))"

definition addClass :: "string \<Rightarrow> gnode \<Rightarrow> gnode" where
  "addClass c n = n\<lparr>classes := insert c (classes n)\<rparr>"

definition removeClass :: "string \<Rightarrow> gnode \<Rightarrow> gnode" where
  "removeClass c n = n\<lparr>classes := classes n - {c}\<rparr>"

definition toggleClass :: "string \<Rightarrow> bool \<Rightarrow> gnode \<Rightarrow> gnode" where
  "toggleClass c force n = (if force then addClass c n else removeClass c n)"

text \<open>
  The calls into the host that the plugin makes, in order. \<open>SetViewState l None\<close> is
  the call with the view type only; \<open>SetViewState l (Some p)\<close> is the file-scoped
  one, which makes the host rebuild the graph for the document \<open>p\<close>. A graph view
  is named by its leaf.
\<close>

datatype notice = BannerClosed | BannerReopened

datatype host_call =
    GetLeaf nat
  | SetViewState nat "string option"
  | SetGroup nat string
  | InsertAfter nat nat string
  | OnResize nat
  | LeafDetach nat
  | ParentRemoveChild nat
  | NodeRemove nat
  | Notice notice
  | SaveData

datatype callback = PlaceGraphView nat | RemoveChild nat

record timer =
  tid :: nat
  due :: nat
  callback :: callback

subsection \<open>GraphView (main.js, lines 94 to 289)\<close>

text \<open>
  \<^verbatim>\<open>setupLeafPromise\<close> is pending, with the \<^verbatim>\<open>timeToRemoveLeaf\<close> that
  \<^verbatim>\<open>_setupLeaf\<close> was called with, until the host has answered its first
  \<^verbatim>\<open>setViewState\<close>; the node is null until then. The interactive mode (the overlay
  and its pointer listeners) is left out: no property below depends on it.
\<close>

datatype setup_state = Pending "nat option" | Ready

record graph_view =
  leaf :: nat
  node :: "gnode option"
  setupLeafPromise :: setup_state
  currentFilePath :: "string option"
  compact :: bool
  mobileSimplified :: bool

record world =
  settings :: settings
  arrays :: "string list list"
  graphViews :: "graph_view list"
  layoutTimer :: "nat option"
  views :: "nat \<Rightarrow> md_view"
  activeView :: "nat option"
  markdownLeaves :: "nat list"
  isMobile :: bool
  viewContentFound :: "nat \<Rightarrow> bool"
  leafParent :: "nat set"
  nextLeaf :: nat
  now :: nat
  timers :: "timer list"
  nextTimer :: nat
  fired :: "(nat \<times> callback) list"
  trace :: "host_call list"

definition call :: "host_call list \<Rightarrow> world \<Rightarrow> world" where
  "call cs w = w\<lparr>trace := trace w @ cs\<rparr>"

definition update_view :: "nat \<Rightarrow> (graph_view \<Rightarrow> graph_view) \<Rightarrow> world \<Rightarrow> world" where
  "update_view i f w = w\<lparr>graphViews := (graphViews w)[i := f (graphViews w ! i)]\<rparr>"

definition on_node :: "(gnode \<Rightarrow> gnode) \<Rightarrow> graph_view \<Rightarrow> graph_view" where
  "on_node f gv = gv\<lparr>node := map_option f (node gv)\<rparr>"

text \<open>\<^verbatim>\<open>window.setTimeout\<close> and \<^verbatim>\<open>window.clearTimeout\<close>.\<close>

definition setTimeout :: "callback \<Rightarrow> nat \<Rightarrow> world \<Rightarrow> nat \<times> world" where
  "setTimeout cb delay w =
     (nextTimer w,
      w\<lparr>timers := timers w @ [\<lparr>tid = nextTimer w, due = now w + delay, callback = cb\<rparr>],
        nextTimer := Suc (nextTimer w)\<rparr>)"

definition clearTimeout :: "nat \<Rightarrow> world \<Rightarrow> world" where
  "clearTimeout t w = w\<lparr>timers := filter (\<lambda>x. tid x \<noteq> t) (timers w)\<rparr>"

text \<open>
  The constructor: a new leaf in a new tab, and the start of \<^verbatim>\<open>_setupLeaf\<close> up to
  its \<^verbatim>\<open>await\<close>.
\<close>

definition new_GraphView :: "world \<Rightarrow> graph_view \<times> world" where
  "new_GraphView w =
     (let l = nextLeaf w in
      (\<lparr>leaf = l, node = None, setupLeafPromise = Pending (timeToRemoveLeaf (settings w)),
        currentFilePath = None, compact = False, mobileSimplified = False\<rparr>,
       call [GetLeaf l, SetViewState l None]
         (w\<lparr>nextLeaf := Suc l, leafParent := insert l (leafParent w)\<rparr>)))"

text \<open>
  The rest of \<^verbatim>\<open>_setupLeaf\<close>, run when the host has answered: the node is looked
  up and set up, and the leaf is unlinked from its parent, at once or by a timer. The
  answer is taken to arrive when \<^verbatim>\<open>placeTo\<close> first awaits the promise.
\<close>

definition removeChild :: "nat \<Rightarrow> world \<Rightarrow> world" where
  "removeChild l w =
     (if l \<in> leafParent w then call [ParentRemoveChild l] (w\<lparr>leafParent := leafParent w - {l}\<rparr>)
      else w)"

definition setupNode :: "graph_view \<Rightarrow> graph_view" where
  "setupNode gv = on_node (addClass ''graph-banner-content'') gv"

definition setupLeaf :: "nat \<Rightarrow> world \<Rightarrow> world" where
  "setupLeaf i w =
     (let gv = graphViews w ! i in
      case setupLeafPromise gv of
        Ready \<Rightarrow> w
      | Pending ttl \<Rightarrow>
          let found = (if viewContentFound w (leaf gv)
                       then Some \<lparr>classes = {''view-content''}, inside = None\<rparr> else None);
              w1 = update_view i (\<lambda>g. setupNode (g\<lparr>node := found, setupLeafPromise := Ready\<rparr>)) w
          in case ttl of
               None \<Rightarrow> removeChild (leaf gv) w1
             | Some t \<Rightarrow>
                 if 0 < t then snd (setTimeout (RemoveChild (leaf gv)) t w1)
                 else removeChild (leaf gv) w1)"

definition setCompact :: "bool \<Rightarrow> graph_view \<Rightarrow> graph_view" where
  "setCompact c gv = on_node (toggleClass ''graph-banner-compact'' c) (gv\<lparr>compact := c\<rparr>)"

definition setMobileSimplified :: "bool \<Rightarrow> graph_view \<Rightarrow> graph_view" where
  "setMobileSimplified flag gv =
     on_node (toggleClass ''graph-banner-mobile-simplified'' flag) (gv\<lparr>mobileSimplified := flag\<rparr>)"

definition isDescendantOf :: "graph_view \<Rightarrow> element \<Rightarrow> bool" where
  "isDescendantOf gv parent = (case node gv of None \<Rightarrow> False | Some n \<Rightarrow> contains parent n)"

definition setVisibility :: "bool \<Rightarrow> graph_view \<Rightarrow> graph_view" where
  "setVisibility shown gv =
     on_node (\<lambda>n. (if shown then addClass ''graph-banner-visible''
                    else removeClass ''graph-banner-visible'') (toggleClass ''hidden'' (\<not> shown) n)) gv"

text \<open>
  \<^verbatim>\<open>placeTo\<close> is an \<^verbatim>\<open>async\<close> function: it stops at \<^verbatim>\<open>await this.setupLeafPromise\<close>
  and, when the path differs, at \<^verbatim>\<open>await this.leaf.setViewState(...)\<close>, and other
  code runs while it waits. \<open>placeTo_begin\<close> is the part that runs when the set-up
  has been answered, up to the second \<^verbatim>\<open>await\<close>: it reads \<^verbatim>\<open>currentFilePath\<close>
  and, if the path differs, makes the file-scoped call and waits with the path it
  read (\<open>AwaitingViewState\<close>). \<open>placeTo_resume\<close> is the part that runs when the host
  has answered that call: only then \<^verbatim>\<open>currentFilePath\<close> is written.
  \<open>placeTo_tail\<close> is the code from \<^verbatim>\<open>view.getMode()\<close> on. The options are
  \<open>(compact, mobileSimplified)\<close>.
\<close>

definition placeTo_tail :: "nat \<Rightarrow> nat \<Rightarrow> (bool \<times> bool) option \<Rightarrow> world \<Rightarrow> world" where
  "placeTo_tail i v opts w1 =
     (let gv = graphViews w1 ! i; mode = getMode (views w1 v)
      in if \<not> modeContainerFound (views w1 v) then w1
         else if \<not> isDescendantOf gv (ModeContainer v mode) \<and> \<not> titleParentFound (views w1 v)
         then w1
         else
           let w2 = (if \<not> isDescendantOf gv (ModeContainer v mode)
                     then update_view i (on_node (\<lambda>n. n\<lparr>inside := Some (v, mode)\<rparr>))
                            (call [InsertAfter (leaf gv) v mode] w1)
                     else w1);
               w3 = update_view i (on_node (addClass ''graph-banner-visible'')) w2;
               w4 = (case opts of
                       None \<Rightarrow> w3
                     | Some os \<Rightarrow> update_view i (\<lambda>g. setMobileSimplified (snd os) (setCompact (fst os) g)) w3)
           in call [OnResize (leaf gv)] w4)"

datatype placing = Placed world | AwaitingViewState string world

definition placeTo_begin :: "nat \<Rightarrow> nat \<Rightarrow> (bool \<times> bool) option \<Rightarrow> world \<Rightarrow> placing" where
  "placeTo_begin i v opts w0 =
     (let w = setupLeaf i w0; gv = graphViews w ! i in
      if node gv = None then Placed w
      else
        case view_file (views w v) of
          None \<Rightarrow> Placed w
        | Some f \<Rightarrow>
            let filePath = path f;
                needNewState = (currentFilePath gv \<noteq> Some filePath)
            in if needNewState
               then AwaitingViewState filePath (call [SetViewState (leaf gv) (Some filePath)] w)
               else Placed (placeTo_tail i v opts w))"

definition placeTo_resume :: "nat \<Rightarrow> nat \<Rightarrow> (bool \<times> bool) option \<Rightarrow> string \<Rightarrow> world \<Rightarrow> world" where
  "placeTo_resume i v opts filePath w =
     placeTo_tail i v opts
       (update_view i (\<lambda>g. g\<lparr>currentFilePath := Some filePath\<rparr>)
          (call [SetGroup (leaf (graphViews w ! i)) filePath] w))"

text \<open>
  \<open>placeTo\<close> is one invocation that nothing else runs into: the host's answer comes
  before any other code touches the handle, as it does for a caller that awaits the
  result before it calls again.
\<close>

definition placeTo :: "nat \<Rightarrow> nat \<Rightarrow> (bool \<times> bool) option \<Rightarrow> world \<Rightarrow> world" where
  "placeTo i v opts w =
     (case placeTo_begin i v opts w of
        Placed w1 \<Rightarrow> w1
      | AwaitingViewState filePath w1 \<Rightarrow> placeTo_resume i v opts filePath w1)"

text \<open>
  Two invocations of which the second is started without awaiting the first, as in
  \<^verbatim>\<open>gv.placeTo(view, a); gv.placeTo(view, b)\<close>: both have stopped at their first
  \<^verbatim>\<open>await\<close>, so the second runs up to its own \<^verbatim>\<open>setViewState\<close> before the host has
  answered the first. The callers other than the handler of \<^verbatim>\<open>file-open\<close> start
  \<^verbatim>\<open>placeGraphView\<close> and \<^verbatim>\<open>forceRefresh\<close> this way.
\<close>

definition placeTo_unawaited ::
  "nat \<Rightarrow> nat \<Rightarrow> (bool \<times> bool) option \<Rightarrow> (bool \<times> bool) option \<Rightarrow> world \<Rightarrow> world" where
  "placeTo_unawaited i v opts opts' w =
     (case placeTo_begin i v opts w of
        Placed w1 \<Rightarrow> placeTo i v opts' w1
      | AwaitingViewState filePath w1 \<Rightarrow>
          (case placeTo_begin i v opts' w1 of
             Placed w2 \<Rightarrow> placeTo_resume i v opts filePath w2
           | AwaitingViewState filePath' w2 \<Rightarrow>
               placeTo_resume i v opts' filePath' (placeTo_resume i v opts filePath w2)))"

definition forceRefresh :: "nat \<Rightarrow> nat \<Rightarrow> (bool \<times> bool) option \<Rightarrow> world \<Rightarrow> world" where
  "forceRefresh i v opts w = placeTo i v opts (update_view i (\<lambda>g. g\<lparr>currentFilePath := None\<rparr>) w)"

definition detach :: "nat \<Rightarrow> world \<Rightarrow> world" where
  "detach i w =
     (let gv = graphViews w ! i;
          w1 = call [LeafDetach (leaf gv)] (w\<lparr>leafParent := leafParent w - {leaf gv}\<rparr>)
      in if node gv = None then w1
         else call [NodeRemove (leaf gv)]
                (update_view i
                   (on_node (\<lambda>n. (removeClass ''graph-banner-content'' n)\<lparr>inside := None\<rparr>)) w1))"

subsection \<open>GraphBannerPlugin (main.js, lines 520 to 875)\<close>

text \<open>
  The array store: \<open>array_at w a\<close> is the array that the reference \<open>a\<close> names
  and \<open>new_array\<close> makes one, under a reference that named nothing before.
\<close>

definition array_at :: "world \<Rightarrow> nat \<Rightarrow> string list option" where
  "array_at w a = (if a < length (arrays w) then Some (arrays w ! a) else None)"

definition new_array :: "string list \<Rightarrow> world \<Rightarrow> nat \<times> world" where
  "new_array xs w = (length (arrays w), w\<lparr>arrays := arrays w @ [xs]\<rparr>)"

definition ignore_patterns :: "world \<Rightarrow> string list option" where
  "ignore_patterns w = (case ignore (settings w) of None \<Rightarrow> None | Some a \<Rightarrow> array_at w a)"

definition isNoteDisabled :: "string \<Rightarrow> world \<Rightarrow> bool" where
  "isNoteDisabled p w =
     (p \<in> set (case perNoteDisabledPaths (settings w) of None \<Rightarrow> [] | Some l \<Rightarrow> l))"

fun findIndex :: "('a \<Rightarrow> bool) \<Rightarrow> 'a list \<Rightarrow> nat option" where
  "findIndex P [] = None"
| "findIndex P (x # xs) = (if P x then Some 0 else map_option Suc (findIndex P xs))"

text \<open>
  \<^verbatim>\<open>_getOrCreateGraphView\<close>: the index of the handle in \<^verbatim>\<open>graphViews\<close> and the
  world after the call. In rule 3 the maximum is at least 1, so that
  \<^verbatim>\<open>graphViews[0]\<close> exists when the length has reached it.
\<close>

definition getOrCreateGraphView :: "nat \<Rightarrow> world \<Rightarrow> nat \<times> world" where
  "getOrCreateGraphView v w =
     (let markdownNodes = map ContainerEl (markdownLeaves w) in
      case findIndex (\<lambda>gv. isDescendantOf gv (ContainerEl v)) (graphViews w) of
        Some i \<Rightarrow> (i, w)
      | None \<Rightarrow>
         (case findIndex (\<lambda>gv. \<not> list_ex (isDescendantOf gv) markdownNodes) (graphViews w) of
            Some i \<Rightarrow> (i, w)
          | None \<Rightarrow>
              let max_views = or_number (maxGraphViews (settings w)) DEFAULT_maxGraphViews in
              if max_views \<le> length (graphViews w) then (0, w)
              else
                let made = new_GraphView w; w1 = snd made
                in (length (graphViews w1), w1\<lparr>graphViews := graphViews w1 @ [fst made]\<rparr>)))"

definition placeGraphView :: "nat \<Rightarrow> world \<Rightarrow> world" where
  "placeGraphView v w =
     (case view_file (views w v) of
        None \<Rightarrow> w
      | Some f \<Rightarrow>
          if extension f \<noteq> ''md'' then w
          else if isNoteDisabled (path f) w then
            (let got = getOrCreateGraphView v w
             in update_view (fst got) (setVisibility False) (snd got))
          else
            let ignored = matchIgnore (path f) (ignore_patterns w);
                got = getOrCreateGraphView v w;
                i = fst got;
                w1 = update_view i (setVisibility (\<not> ignored)) (snd got)
            in if ignored then w1
               else
                 let mode = getMode (views w1 v);
                     behaviour = or_string (showInEditMode (settings w1)) DEFAULT_showInEditMode
                 in if mode = ''source'' \<and> behaviour = ''hidden''
                    then update_view i (setVisibility False) w1
                    else
                      let compact_opt = (mode = ''source'' \<and> behaviour = ''compact'');
                          mobile = or_string (mobileMode (settings w1)) DEFAULT_mobileMode
                      in if isMobile w1 \<and> mobile = ''disabled''
                         then update_view i (setVisibility False) w1
                         else placeTo i v (Some (compact_opt, isMobile w1 \<and> mobile = ''simplified''))
                                (update_view i (setVisibility True) w1))"

definition toggleCurrentNote :: "string \<Rightarrow> world \<Rightarrow> world" where
  "toggleCurrentNote p w =
     (let list = (case perNoteDisabledPaths (settings w) of None \<Rightarrow> [] | Some l \<Rightarrow> l);
          w1 = (if p \<notin> set list
                then call [Notice BannerClosed]
                       (w\<lparr>settings := (settings w)\<lparr>perNoteDisabledPaths := Some (list @ [p])\<rparr>\<rparr>)
                else call [Notice BannerReopened]
                       (w\<lparr>settings := (settings w)\<lparr>perNoteDisabledPaths := Some (remove1 p list)\<rparr>\<rparr>));
          w2 = call [SaveData] w1
      in case activeView w2 of
           None \<Rightarrow> w2
         | Some v \<Rightarrow>
             (case view_file (views w2 v) of
                None \<Rightarrow> w2
              | Some f \<Rightarrow> if path f = p then placeGraphView v w2 else w2))"

text \<open>
  \<^verbatim>\<open>_getCoreSettingsSnapshot\<close> and \<^verbatim>\<open>_applyCoreSettingsSnapshot\<close> (lines 734 to
  767). \<^verbatim>\<open>[...ignore]\<close> makes a new array; a value that is not an array gives the
  empty one.
\<close>

record snapshot =
  snap_maxGraphViews :: "nat option"
  snap_layoutDebounceMs :: "nat option"
  snap_mobileMode :: "string option"
  snap_showInEditMode :: "string option"
  snap_timeToRemoveLeaf :: "nat option"
  snap_bannerHeight :: "string option"
  snap_ignore :: "nat option"

definition spread :: "string list option \<Rightarrow> string list" where
  "spread xs = (case xs of None \<Rightarrow> [] | Some ys \<Rightarrow> ys)"

definition getCoreSettingsSnapshot :: "world \<Rightarrow> snapshot \<times> world" where
  "getCoreSettingsSnapshot w =
     (let s = settings w; copied = new_array (spread (ignore_patterns w)) w
      in (\<lparr>snap_maxGraphViews = maxGraphViews s,
           snap_layoutDebounceMs = layoutDebounceMs s,
           snap_mobileMode = mobileMode s,
           snap_showInEditMode = showInEditMode s,
           snap_timeToRemoveLeaf = timeToRemoveLeaf s,
           snap_bannerHeight = bannerHeight s,
           snap_ignore = Some (fst copied)\<rparr>,
          snd copied))"

definition applyCoreSettingsSnapshot :: "snapshot option \<Rightarrow> world \<Rightarrow> world" where
  "applyCoreSettingsSnapshot given w =
     (case given of
        None \<Rightarrow> w
      | Some sn \<Rightarrow>
          let s = settings w;
              w1 = w\<lparr>settings := s
                     \<lparr>maxGraphViews := nullish (snap_maxGraphViews sn) (maxGraphViews s),
                      layoutDebounceMs := nullish (snap_layoutDebounceMs sn) (layoutDebounceMs s),
                      mobileMode := nullish (snap_mobileMode sn) (mobileMode s),
                      showInEditMode := nullish (snap_showInEditMode sn) (showInEditMode s),
                      timeToRemoveLeaf := nullish (snap_timeToRemoveLeaf sn) (timeToRemoveLeaf s),
                      bannerHeight := nullish (snap_bannerHeight sn) (bannerHeight s)\<rparr>\<rparr>
          in case snap_ignore sn of
               None \<Rightarrow> w1
             | Some a \<Rightarrow>
                 let copied = new_array (spread (array_at w1 a)) w1
                 in (snd copied)\<lparr>settings := (settings (snd copied))\<lparr>ignore := Some (fst copied)\<rparr>\<rparr>)"

text \<open>
  The handler of \<^verbatim>\<open>layout-change\<close> that \<^verbatim>\<open>onload\<close> registers (lines 557 to 570),
  and \<^verbatim>\<open>onunload\<close>.
\<close>

definition layout_change :: "world \<Rightarrow> world" where
  "layout_change w =
     (case activeView w of
        None \<Rightarrow> w
      | Some v \<Rightarrow>
          let wait = (case layoutDebounceMs (settings w) of
                        None \<Rightarrow> DEFAULT_layoutDebounceMs | Some n \<Rightarrow> n);
              w1 = (case layoutTimer w of None \<Rightarrow> w | Some t \<Rightarrow> clearTimeout t w);
              started = setTimeout (PlaceGraphView v) wait w1
          in (snd started)\<lparr>layoutTimer := Some (fst started)\<rparr>)"

definition onunload :: "world \<Rightarrow> world" where
  "onunload w =
     (let w1 = (case layoutTimer w of
                  None \<Rightarrow> w
                | Some t \<Rightarrow> (clearTimeout t w)\<lparr>layoutTimer := None\<rparr>);
          w2 = fold detach [0..<length (graphViews w1)] w1
      in w2\<lparr>graphViews := []\<rparr>)"

subsection \<open>The host's timer queue\<close>

text \<open>
  The host runs a pending timer when its time has come: the earliest one first, and of
  two with the same time the one set first. \<open>fired\<close> keeps what ran and when.
\<close>

fun run_callback :: "callback \<Rightarrow> world \<Rightarrow> world" where
  "run_callback (PlaceGraphView v) w = placeGraphView v w"
| "run_callback (RemoveChild l) w = removeChild l w"

fun earliest :: "timer list \<Rightarrow> timer option" where
  "earliest [] = None"
| "earliest (x # xs) =
     (case earliest xs of
        None \<Rightarrow> Some x
      | Some y \<Rightarrow> if due x \<le> due y then Some x else Some y)"

definition next_due :: "nat \<Rightarrow> world \<Rightarrow> timer option" where
  "next_due t w =
     (case earliest (timers w) of
        None \<Rightarrow> None
      | Some x \<Rightarrow> if due x \<le> t then Some x else None)"

definition fire :: "timer \<Rightarrow> world \<Rightarrow> world" where
  "fire x w =
     run_callback (callback x)
       (w\<lparr>timers := remove1 x (timers w), now := max (now w) (due x),
          fired := fired w @ [(max (now w) (due x), callback x)]\<rparr>)"

fun callback_weight :: "callback \<Rightarrow> nat" where
  "callback_weight (PlaceGraphView v) = 2"
| "callback_weight (RemoveChild l) = 1"

definition pending_weight :: "world \<Rightarrow> nat" where
  "pending_weight w = sum_list (map (\<lambda>x. callback_weight (callback x)) (timers w))"

subsection \<open>A session, for the examples\<close>

text \<open>
  The states that the examples below start from: \<^verbatim>\<open>DEFAULT_SETTINGS\<close>, with its
  empty \<^verbatim>\<open>ignore\<close> array under the reference 0, and the plugin as \<^verbatim>\<open>onload\<close>
  sets it up when no data was saved, before its first placement: an empty pool and no
  timer. The host shows the given views. The other states are reached from there: a
  note whose handle is pooled, placed, muted by the per-note list, or hidden in the
  edit mode, and two panes with a capacity of one.
\<close>

definition DEFAULT_SETTINGS :: settings where
  "DEFAULT_SETTINGS =
     \<lparr>ignore = Some 0, timeToRemoveLeaf = Some 100, maxGraphViews = Some 2,
      layoutDebounceMs = Some 80, bannerHeight = Some ''14vh'', mobileMode = Some ''full'',
      showInEditMode = Some ''compact'', perNoteDisabledPaths = Some []\<rparr>"

definition loaded :: "(nat \<Rightarrow> md_view) \<Rightarrow> nat option \<Rightarrow> nat list \<Rightarrow> world" where
  "loaded shown active leaves =
     \<lparr>settings = DEFAULT_SETTINGS, arrays = [[]], graphViews = [], layoutTimer = None,
      views = shown, activeView = active, markdownLeaves = leaves, isMobile = False,
      viewContentFound = (\<lambda>l. True), leafParent = {}, nextLeaf = 0, now = 0, timers = [],
      nextTimer = 0, fired = [], trace = []\<rparr>"

definition note_view :: "string \<Rightarrow> string \<Rightarrow> md_view" where
  "note_view p m =
     \<lparr>view_file = Some \<lparr>path = p, extension = ''md''\<rparr>, getMode = m,
      modeContainerFound = True, titleParentFound = True\<rparr>"

definition one_note :: world where
  "one_note = loaded (\<lambda>v. note_view ''Archive/x.md'' ''preview'') (Some 0) [0]"


definition placed_note :: world where
  "placed_note = placeGraphView 0 one_note"

definition muted_note :: world where
  "muted_note = placed_note\<lparr>settings := (settings placed_note)\<lparr>perNoteDisabledPaths := Some [''Archive/x.md'']\<rparr>\<rparr>"

definition edit_hidden_note :: world where
  "edit_hidden_note =
     placed_note\<lparr>settings := (settings placed_note)\<lparr>showInEditMode := Some ''hidden''\<rparr>,
                 views := (\<lambda>v. note_view ''Archive/x.md'' ''source'')\<rparr>"

definition two_panes :: world where
  "two_panes =
     (loaded (\<lambda>v. note_view (if v = 0 then ''a.md'' else ''b.md'') ''preview'') (Some 0) [0, 1])
       \<lparr>settings := DEFAULT_SETTINGS\<lparr>maxGraphViews := Some 1\<rparr>\<rparr>"

definition x_md :: tfile where
  "x_md = \<lparr>path = ''Archive/x.md'', extension = ''md''\<rparr>"

subsection \<open>Binding: placeTo and forceRefresh\<close>

text \<open>
  \<open>rebinds\<close> counts the file-scoped \<^verbatim>\<open>setViewState\<close> calls made so far and
  \<open>insertions\<close> the \<^verbatim>\<open>insertAfter\<close> calls; \<open>bound_path\<close> is the
  \<^verbatim>\<open>currentFilePath\<close> of a handle. A handle's node is available when its set-up has
  given it one, or is pending on a leaf whose view has the content element.
\<close>

fun is_rebind :: "host_call \<Rightarrow> bool" where
  "is_rebind (SetViewState l (Some p)) = True"
| "is_rebind c = False"

fun is_insertion :: "host_call \<Rightarrow> bool" where
  "is_insertion (InsertAfter l v m) = True"
| "is_insertion c = False"

definition rebinds :: "world \<Rightarrow> nat" where
  "rebinds w = length (filter is_rebind (trace w))"

definition insertions :: "world \<Rightarrow> nat" where
  "insertions w = length (filter is_insertion (trace w))"

definition node_available :: "nat \<Rightarrow> world \<Rightarrow> bool" where
  "node_available i w =
     (case setupLeafPromise (graphViews w ! i) of
        Ready \<Rightarrow> node (graphViews w ! i) \<noteq> None
      | Pending ttl \<Rightarrow> viewContentFound w (leaf (graphViews w ! i)))"

definition bound_path :: "nat \<Rightarrow> world \<Rightarrow> string option" where
  "bound_path i w = currentFilePath (graphViews w ! i)"

lemma nth_list_update_any:
  "(xs[i := x]) ! j = (if i = j \<and> i < length xs then x else xs ! j)"
  by (cases "i < length xs") (auto simp: nth_list_update list_update_beyond)

text \<open>
  An invocation that runs undisturbed, its two halves put together: the handle's
  leaf and node are the same before and after the answer of the host.
\<close>

lemma placeTo_tail_handle:
  assumes "leaf (graphViews w1 ! i) = leaf gv" and "node (graphViews w1 ! i) = node gv"
  shows "placeTo_tail i v opts w1 =
     (let mode = getMode (views w1 v)
      in if \<not> modeContainerFound (views w1 v) then w1
         else if \<not> isDescendantOf gv (ModeContainer v mode) \<and> \<not> titleParentFound (views w1 v)
         then w1
         else
           let w2 = (if \<not> isDescendantOf gv (ModeContainer v mode)
                     then update_view i (on_node (\<lambda>n. n\<lparr>inside := Some (v, mode)\<rparr>))
                            (call [InsertAfter (leaf gv) v mode] w1)
                     else w1);
               w3 = update_view i (on_node (addClass ''graph-banner-visible'')) w2;
               w4 = (case opts of
                       None \<Rightarrow> w3
                     | Some os \<Rightarrow> update_view i (\<lambda>g. setMobileSimplified (snd os) (setCompact (fst os) g)) w3)
           in call [OnResize (leaf gv)] w4)"
  unfolding placeTo_tail_def Let_def isDescendantOf_def using assms by (cases opts) simp_all

lemma placeTo_resume_handle:
  "placeTo_resume i v opts filePath (call [SetViewState (leaf (graphViews w ! i)) p] w) =
     placeTo_tail i v opts
       (update_view i (\<lambda>g. g\<lparr>currentFilePath := Some filePath\<rparr>)
          (call [SetViewState (leaf (graphViews w ! i)) p, SetGroup (leaf (graphViews w ! i)) filePath] w))"
  unfolding placeTo_resume_def by (simp add: call_def)

lemma update_currentFilePath_handle:
  "leaf (graphViews (update_view i (\<lambda>g. g\<lparr>currentFilePath := p\<rparr>) (call cs w)) ! i) = leaf (graphViews w ! i)"
  "node (graphViews (update_view i (\<lambda>g. g\<lparr>currentFilePath := p\<rparr>) (call cs w)) ! i) = node (graphViews w ! i)"
  by (simp_all add: update_view_def call_def nth_list_update_any)

lemma placeTo_undisturbed:
  "placeTo i v opts w0 =
     (let w = setupLeaf i w0; gv = graphViews w ! i in
      if node gv = None then w
      else
        case view_file (views w v) of
          None \<Rightarrow> w
        | Some f \<Rightarrow>
            let filePath = path f;
                needNewState = (currentFilePath gv \<noteq> Some filePath);
                w1 = (if needNewState
                      then update_view i (\<lambda>g. g\<lparr>currentFilePath := Some filePath\<rparr>)
                             (call [SetViewState (leaf gv) (Some filePath), SetGroup (leaf gv) filePath] w)
                      else w);
                mode = getMode (views w1 v)
            in if \<not> modeContainerFound (views w1 v) then w1
               else if \<not> isDescendantOf gv (ModeContainer v mode) \<and> \<not> titleParentFound (views w1 v)
               then w1
               else
                 let w2 = (if \<not> isDescendantOf gv (ModeContainer v mode)
                           then update_view i (on_node (\<lambda>n. n\<lparr>inside := Some (v, mode)\<rparr>))
                                  (call [InsertAfter (leaf gv) v mode] w1)
                           else w1);
                     w3 = update_view i (on_node (addClass ''graph-banner-visible'')) w2;
                     w4 = (case opts of
                             None \<Rightarrow> w3
                           | Some os \<Rightarrow> update_view i (\<lambda>g. setMobileSimplified (snd os) (setCompact (fst os) g)) w3)
                 in call [OnResize (leaf gv)] w4)"
  (is "_ = ?rhs")
proof -
  define w where "w = setupLeaf i w0"
  define gv where "gv = graphViews w ! i"
  show ?thesis
  proof (cases "node gv = None")
    case True
    then show ?thesis
      unfolding placeTo_def placeTo_begin_def Let_def w_def [symmetric] gv_def [symmetric]
      by simp
  next
    case False
    then obtain n where nd: "node gv = Some n"
      by auto
    show ?thesis
    proof (cases "view_file (views w v)")
      case None
      with nd show ?thesis
        unfolding placeTo_def placeTo_begin_def Let_def w_def [symmetric] gv_def [symmetric]
        by simp
    next
      case (Some f)
      show ?thesis
      proof (cases "currentFilePath gv = Some (path f)")
        case True
        have "placeTo i v opts w0 = placeTo_tail i v opts w"
          using nd Some True
          unfolding placeTo_def placeTo_begin_def Let_def w_def [symmetric] gv_def [symmetric]
          by simp
        also have "\<dots> = ?rhs"
          using nd Some True
          unfolding Let_def w_def [symmetric] gv_def [symmetric]
          by (simp add: placeTo_tail_handle [of w i gv, unfolded Let_def] gv_def)
        finally show ?thesis .
      next
        case False
        let ?w1 = "update_view i (\<lambda>g. g\<lparr>currentFilePath := Some (path f)\<rparr>)
                     (call [SetViewState (leaf gv) (Some (path f)), SetGroup (leaf gv) (path f)] w)"
        have "placeTo i v opts w0 = placeTo_tail i v opts ?w1"
          using nd Some False
          unfolding placeTo_def placeTo_begin_def Let_def w_def [symmetric] gv_def [symmetric]
          by (simp add: placeTo_resume_handle [of i v opts "path f" w, folded gv_def])
        also have "\<dots> = ?rhs"
        proof -
          have same: "leaf (graphViews ?w1 ! i) = leaf gv" "node (graphViews ?w1 ! i) = node gv"
            by (simp_all add: update_currentFilePath_handle gv_def)
          show ?thesis
            using nd Some False
            unfolding Let_def w_def [symmetric] gv_def [symmetric]
            by (simp add: placeTo_tail_handle [OF same, unfolded Let_def])
        qed
        finally show ?thesis .
      qed
    qed
  qed
qed

definition same_config :: "world \<Rightarrow> world \<Rightarrow> bool" where
  "same_config w w' =
     (settings w' = settings w \<and> arrays w' = arrays w \<and> layoutTimer w' = layoutTimer w \<and>
      views w' = views w \<and> activeView w' = activeView w \<and>
      markdownLeaves w' = markdownLeaves w \<and> isMobile w' = isMobile w \<and>
      viewContentFound w' = viewContentFound w \<and> now w' = now w \<and> fired w' = fired w)"

lemma same_config_fields:
  assumes "same_config w w'"
  shows "settings w' = settings w" "arrays w' = arrays w" "layoutTimer w' = layoutTimer w"
    "views w' = views w" "activeView w' = activeView w" "markdownLeaves w' = markdownLeaves w"
    "isMobile w' = isMobile w" "viewContentFound w' = viewContentFound w" "now w' = now w"
    "fired w' = fired w"
  using assms by (simp_all add: same_config_def)

lemma same_config_steps:
  "same_config w (update_view i f w)"
  "same_config w (call cs w)"
  "same_config w (removeChild l w)"
  "same_config w (snd (setTimeout cb delay w))"
  by (simp_all add: same_config_def update_view_def call_def removeChild_def setTimeout_def)

lemma same_config_setupLeaf: "same_config w (setupLeaf i w)"
  by (simp add: setupLeaf_def Let_def same_config_def update_view_def call_def removeChild_def
        setTimeout_def split: setup_state.splits option.splits)

lemma same_config_placeTo: "same_config w (placeTo i v opts w)"
  unfolding placeTo_undisturbed Let_def
  by (simp add: same_config_def same_config_fields [OF same_config_setupLeaf] update_view_def
        call_def split: option.splits)

lemma setupLeaf_frame:
  "views (setupLeaf i w) = views w"
  "length (graphViews (setupLeaf i w)) = length (graphViews w)"
  "rebinds (setupLeaf i w) = rebinds w"
  "insertions (setupLeaf i w) = insertions w"
  "bound_path j (setupLeaf i w) = bound_path j w"
  "settings (setupLeaf i w) = settings w"
  by (auto simp: setupLeaf_def Let_def update_view_def call_def removeChild_def setTimeout_def
        rebinds_def insertions_def bound_path_def setupNode_def on_node_def nth_list_update_any
        split: setup_state.splits option.splits)

lemma setupLeaf_node:
  "i < length (graphViews w) \<Longrightarrow> node_available i w \<Longrightarrow>
   node (graphViews (setupLeaf i w) ! i) \<noteq> None \<and>
   setupLeafPromise (graphViews (setupLeaf i w) ! i) = Ready"
  by (auto simp: setupLeaf_def Let_def update_view_def call_def removeChild_def setTimeout_def
        node_available_def setupNode_def on_node_def
        split: setup_state.splits option.splits)

lemma placeTo_frame:
  "views (placeTo i v opts w) = views w"
  "length (graphViews (placeTo i v opts w)) = length (graphViews w)"
  "settings (placeTo i v opts w) = settings w"
  unfolding placeTo_undisturbed Let_def
  by (auto simp: setupLeaf_frame update_view_def call_def split: option.splits)

lemma placeTo_node:
  assumes "i < length (graphViews w)" "node_available i w"
  shows "node_available i (placeTo i v opts w)"
proof -
  from assms have "node (graphViews (setupLeaf i w) ! i) \<noteq> None"
    "setupLeafPromise (graphViews (setupLeaf i w) ! i) = Ready" "i < length (graphViews (setupLeaf i w))"
    by (simp_all add: setupLeaf_node setupLeaf_frame)
  then show ?thesis
    unfolding placeTo_undisturbed Let_def node_available_def
    by (auto simp: update_view_def call_def on_node_def setCompact_def setMobileSimplified_def
          split: option.splits)
qed

lemma placeTo_binds:
  assumes "i < length (graphViews w)" "node_available i w" "view_file (views w v) = Some f"
  shows "bound_path i (placeTo i v opts w) = Some (path f)"
    and "rebinds (placeTo i v opts w) = rebinds w + (if bound_path i w = Some (path f) then 0 else 1)"
proof -
  let ?w = "setupLeaf i w"
  from assms have n: "node (graphViews ?w ! i) \<noteq> None" "i < length (graphViews ?w)"
    "view_file (views ?w v) = Some f"
    by (simp_all add: setupLeaf_node setupLeaf_frame)
  have b: "bound_path i ?w = bound_path i w" "rebinds ?w = rebinds w"
    by (simp_all add: setupLeaf_frame)
  from n show "bound_path i (placeTo i v opts w) = Some (path f)"
    unfolding placeTo_undisturbed Let_def bound_path_def
    by (auto simp: update_view_def call_def on_node_def setCompact_def setMobileSimplified_def
          split: option.splits)
  from n b show "rebinds (placeTo i v opts w) = rebinds w + (if bound_path i w = Some (path f) then 0 else 1)"
    unfolding placeTo_undisturbed Let_def bound_path_def rebinds_def
    by (auto simp: update_view_def call_def split: option.splits)
qed

lemma setupLeaf_ready:
  "setupLeafPromise (graphViews w ! i) = Ready \<Longrightarrow> setupLeaf i w = w"
  by (simp add: setupLeaf_def Let_def)

lemma placeTo_tail_frame:
  "rebinds (placeTo_tail i v opts w) = rebinds w"
  "bound_path i (placeTo_tail i v opts w) = bound_path i w"
  unfolding placeTo_tail_def Let_def
  by (auto simp: rebinds_def bound_path_def update_view_def call_def on_node_def
        setCompact_def setMobileSimplified_def nth_list_update_any split: option.splits)

lemma placeTo_resume_binds:
  "rebinds (placeTo_resume i v opts p w) = rebinds w"
  "i < length (graphViews w) \<Longrightarrow> bound_path i (placeTo_resume i v opts p w) = Some p"
  unfolding placeTo_resume_def
  by (simp_all add: placeTo_tail_frame)
    (simp_all add: rebinds_def bound_path_def update_view_def call_def)

lemma placeTo_begin_unbound:
  assumes "i < length (graphViews w)" and "node_available i w"
    and "view_file (views w v) = Some f" and "bound_path i w \<noteq> Some (path f)"
  shows "placeTo_begin i v opts w =
           AwaitingViewState (path f)
             (call [SetViewState (leaf (graphViews (setupLeaf i w) ! i)) (Some (path f))] (setupLeaf i w))"
proof -
  from assms have "node (graphViews (setupLeaf i w) ! i) \<noteq> None"
    "view_file (views (setupLeaf i w) v) = Some f"
    "currentFilePath (graphViews (setupLeaf i w) ! i) \<noteq> Some (path f)"
    using setupLeaf_frame(5) [of i i w]
    by (simp_all add: setupLeaf_node setupLeaf_frame(1) bound_path_def)
  then show ?thesis
    unfolding placeTo_begin_def Let_def by auto
qed

lemma placeTo_begin_bound:
  assumes "i < length (graphViews w)" and "node_available i w"
    and "view_file (views w v) = Some f" and "bound_path i w = Some (path f)"
  shows "placeTo_begin i v opts w = Placed (placeTo i v opts w)"
proof -
  from assms have "node (graphViews (setupLeaf i w) ! i) \<noteq> None"
    "view_file (views (setupLeaf i w) v) = Some f"
    "currentFilePath (graphViews (setupLeaf i w) ! i) = Some (path f)"
    using setupLeaf_frame(5) [of i i w]
    by (simp_all add: setupLeaf_node setupLeaf_frame(1) bound_path_def)
  then show ?thesis
    unfolding placeTo_def placeTo_begin_def Let_def by auto
qed

text \<open>
  Two invocations of which the second is started without awaiting the first: on a
  handle that is not bound to the path both have read \<^verbatim>\<open>currentFilePath\<close> before
  either has written it, and both make the file-scoped call.
\<close>

lemma placeTo_unawaited_binds:
  assumes "i < length (graphViews w)" and "node_available i w"
    and "view_file (views w v) = Some f"
  shows "bound_path i (placeTo_unawaited i v opts opts' w) = Some (path f)"
    and "rebinds (placeTo_unawaited i v opts opts' w) =
           rebinds w + (if bound_path i w = Some (path f) then 0 else 2)"
proof -
  have "bound_path i (placeTo_unawaited i v opts opts' w) = Some (path f) \<and>
        rebinds (placeTo_unawaited i v opts opts' w) =
           rebinds w + (if bound_path i w = Some (path f) then 0 else 2)"
  proof (cases "bound_path i w = Some (path f)")
    case True
    let ?w1 = "placeTo i v opts w"
    have 1: "i < length (graphViews ?w1)" "node_available i ?w1" "view_file (views ?w1 v) = Some f"
      using assms by (simp_all add: placeTo_frame placeTo_node)
    have "placeTo_unawaited i v opts opts' w = placeTo i v opts' ?w1"
      unfolding placeTo_unawaited_def by (simp add: placeTo_begin_bound [OF assms True])
    moreover have "bound_path i ?w1 = Some (path f)"
      using assms by (rule placeTo_binds)
    ultimately show ?thesis
      using placeTo_binds [OF 1, of opts'] placeTo_binds(2) [OF assms, of opts] True by simp
  next
    case False
    let ?w0 = "setupLeaf i w"
    let ?w1 = "call [SetViewState (leaf (graphViews ?w0 ! i)) (Some (path f))] ?w0"
    let ?w2 = "call [SetViewState (leaf (graphViews ?w0 ! i)) (Some (path f))] ?w1"
    have ready: "setupLeafPromise (graphViews ?w1 ! i) = Ready"
      using assms by (simp add: call_def setupLeaf_node)
    have 1: "i < length (graphViews ?w1)" "node_available i ?w1" "view_file (views ?w1 v) = Some f"
      "bound_path i ?w1 \<noteq> Some (path f)"
      using assms False setupLeaf_frame(5) [of i i w]
      by (simp_all add: call_def node_available_def bound_path_def setupLeaf_node
            setupLeaf_frame(1,2))
    have s: "setupLeaf i ?w1 = ?w1"
      using ready by (rule setupLeaf_ready)
    have b2: "placeTo_begin i v opts' ?w1 = AwaitingViewState (path f) ?w2"
      using placeTo_begin_unbound [OF 1, of opts'] unfolding s by (simp add: call_def)
    have u: "placeTo_unawaited i v opts opts' w =
               placeTo_resume i v opts' (path f) (placeTo_resume i v opts (path f) ?w2)"
      unfolding placeTo_unawaited_def
      by (simp add: placeTo_begin_unbound [OF assms False] b2)
    have len: "length (graphViews (placeTo_resume i v opts (path f) ?w2)) = length (graphViews w)"
      unfolding placeTo_resume_def placeTo_tail_def Let_def
      by (auto simp: update_view_def call_def setupLeaf_frame(2) split: option.splits)
    have "rebinds ?w2 = rebinds w + 2"
      using setupLeaf_frame(3) [of i w] by (simp add: rebinds_def call_def)
    with u len assms(1) False show ?thesis
      by (simp add: placeTo_resume_binds)
  qed
  then show "bound_path i (placeTo_unawaited i v opts opts' w) = Some (path f)"
    and "rebinds (placeTo_unawaited i v opts opts' w) =
           rebinds w + (if bound_path i w = Some (path f) then 0 else 2)"
    by simp_all
qed




text \<open>
  Claim C6. Forced refresh is a round trip. For a handle bound to the path of the
  file the view shows, \<^verbatim>\<open>forceRefresh\<close> first clears the bound path, and the
  placement that follows binds the handle to the same path again with exactly one
  file-scoped \<^verbatim>\<open>setViewState\<close> call.
\<close>

theorem forceRefresh_rebinds_once:
  assumes "i < length (graphViews w)" and "node_available i w"
    and "view_file (views w v) = Some f" and "bound_path i w = Some (path f)"
  shows "bound_path i (update_view i (\<lambda>g. g\<lparr>currentFilePath := None\<rparr>) w) = None \<and>
         bound_path i (forceRefresh i v opts w) = Some (path f) \<and>
         rebinds (forceRefresh i v opts w) = rebinds w + 1"
proof -
  let ?w0 = "update_view i (\<lambda>g. g\<lparr>currentFilePath := None\<rparr>) w"
  have 0: "i < length (graphViews ?w0)" "node_available i ?w0" "view_file (views ?w0 v) = Some f"
    "bound_path i ?w0 = None" "rebinds ?w0 = rebinds w"
    using assms
    by (auto simp: update_view_def node_available_def bound_path_def rebinds_def
          split: setup_state.splits)
  from placeTo_binds [OF 0(1-3)] 0(4,5) show ?thesis
    by (simp add: forceRefresh_def)
qed

theorem forceRefresh_rebinds_once_witness:
  "0 < length (graphViews placed_note) \<and> node_available 0 placed_note \<and>
   view_file (views placed_note 0) = Some x_md \<and>
   bound_path 0 placed_note = Some (path x_md) \<and>
   bound_path 0 (forceRefresh 0 0 None placed_note) = Some ''Archive/x.md'' \<and>
   rebinds (forceRefresh 0 0 None placed_note) = rebinds placed_note + 1"
proof -
  have a: "0 < length (graphViews placed_note)" "node_available 0 placed_note"
    "view_file (views placed_note 0) = Some x_md" "bound_path 0 placed_note = Some (path x_md)"
    by code_simp+
  have b: "path x_md = ''Archive/x.md''"
    by code_simp
  from forceRefresh_rebinds_once [OF a, of None] a b show ?thesis
    by simp
qed

subsection \<open>The snapshot of the core settings\<close>

definition core_fields_defined :: "world \<Rightarrow> bool" where
  "core_fields_defined w =
     (maxGraphViews (settings w) \<noteq> None \<and> layoutDebounceMs (settings w) \<noteq> None \<and>
      mobileMode (settings w) \<noteq> None \<and> showInEditMode (settings w) \<noteq> None \<and>
      timeToRemoveLeaf (settings w) \<noteq> None \<and> bannerHeight (settings w) \<noteq> None \<and>
      ignore_patterns w \<noteq> None)"

lemma snapshot_roundtrip_fields:
  assumes "core_fields_defined w"
      and "taken = getCoreSettingsSnapshot w"
      and "w' = applyCoreSettingsSnapshot (Some (fst taken)) (snd taken)"
  shows "maxGraphViews (settings w') = maxGraphViews (settings w) \<and>
         layoutDebounceMs (settings w') = layoutDebounceMs (settings w) \<and>
         mobileMode (settings w') = mobileMode (settings w) \<and>
         showInEditMode (settings w') = showInEditMode (settings w) \<and>
         timeToRemoveLeaf (settings w') = timeToRemoveLeaf (settings w) \<and>
         bannerHeight (settings w') = bannerHeight (settings w) \<and>
         ignore_patterns w' = ignore_patterns w \<and>
         snap_ignore (fst taken) \<noteq> ignore (settings w) \<and>
         ignore (settings w') \<noteq> snap_ignore (fst taken) \<and>
         ignore (settings w') \<noteq> ignore (settings w) \<and>
         (\<exists>a b. ignore (settings w) = Some a \<and> snap_ignore (fst taken) = Some b \<and>
            array_at (snd taken) b = array_at w a \<and>
            array_at ((snd taken)\<lparr>arrays := (arrays (snd taken))[a := changed]\<rparr>) b = array_at w a)"
proof -
  from assms(1) obtain a where a: "ignore (settings w) = Some a" "a < length (arrays w)"
    by (auto simp: core_fields_defined_def ignore_patterns_def array_at_def
          split: option.splits if_splits)
  from assms(1) have d: "maxGraphViews (settings w) \<noteq> None" "layoutDebounceMs (settings w) \<noteq> None"
    "mobileMode (settings w) \<noteq> None" "showInEditMode (settings w) \<noteq> None"
    "timeToRemoveLeaf (settings w) \<noteq> None" "bannerHeight (settings w) \<noteq> None"
    by (simp_all add: core_fields_defined_def)
  have t: "fst taken = \<lparr>snap_maxGraphViews = maxGraphViews (settings w),
           snap_layoutDebounceMs = layoutDebounceMs (settings w),
           snap_mobileMode = mobileMode (settings w),
           snap_showInEditMode = showInEditMode (settings w),
           snap_timeToRemoveLeaf = timeToRemoveLeaf (settings w),
           snap_bannerHeight = bannerHeight (settings w),
           snap_ignore = Some (length (arrays w))\<rparr>"
    "snd taken = w\<lparr>arrays := arrays w @ [arrays w ! a]\<rparr>"
    using a by (simp_all add: assms(2) getCoreSettingsSnapshot_def Let_def new_array_def
        ignore_patterns_def array_at_def spread_def)
  have same: "maxGraphViews (settings w') = maxGraphViews (settings w)"
    "layoutDebounceMs (settings w') = layoutDebounceMs (settings w)"
    "mobileMode (settings w') = mobileMode (settings w)"
    "showInEditMode (settings w') = showInEditMode (settings w)"
    "timeToRemoveLeaf (settings w') = timeToRemoveLeaf (settings w)"
    "bannerHeight (settings w') = bannerHeight (settings w)"
    using d by (auto simp: assms(3) t applyCoreSettingsSnapshot_def Let_def new_array_def nullish_def)
  have ign: "ignore (settings w') = Some (Suc (length (arrays w)))"
    "arrays w' = arrays w @ [arrays w ! a, arrays w ! a]"
    by (simp_all add: assms(3) t applyCoreSettingsSnapshot_def Let_def new_array_def array_at_def
        spread_def)
  have pats: "ignore_patterns w' = ignore_patterns w"
    using a by (simp add: ignore_patterns_def array_at_def ign nth_append)
  have apart: "snap_ignore (fst taken) \<noteq> ignore (settings w)"
    "ignore (settings w') \<noteq> snap_ignore (fst taken)" "ignore (settings w') \<noteq> ignore (settings w)"
    using a by (simp_all add: t ign)
  have copy: "array_at (snd taken) (length (arrays w)) = array_at w a"
    "array_at ((snd taken)\<lparr>arrays := (arrays (snd taken))[a := changed]\<rparr>) (length (arrays w)) = array_at w a"
    using a by (simp_all add: t array_at_def nth_append list_update_append)
  from same pats apart copy a t(1) show ?thesis by simp
qed

text \<open>
  Claim C10. Taking the snapshot of the core settings and applying it at once is the
  identity on them: when the seven core fields are defined, each of the six scalar
  fields is unchanged and \<^verbatim>\<open>ignore\<close> holds the same lines, element for element. The
  snapshot's array is a copy of its own: its reference is neither the live one of
  before nor the live one of after, it holds the lines of the live array, and writing
  to the live array (\<open>changed\<close>) leaves it as it is.
\<close>

theorem snapshot_roundtrip:
  assumes "core_fields_defined w"
  shows "let taken = getCoreSettingsSnapshot w;
             w' = applyCoreSettingsSnapshot (Some (fst taken)) (snd taken)
         in maxGraphViews (settings w') = maxGraphViews (settings w) \<and>
            layoutDebounceMs (settings w') = layoutDebounceMs (settings w) \<and>
            mobileMode (settings w') = mobileMode (settings w) \<and>
            showInEditMode (settings w') = showInEditMode (settings w) \<and>
            timeToRemoveLeaf (settings w') = timeToRemoveLeaf (settings w) \<and>
            bannerHeight (settings w') = bannerHeight (settings w) \<and>
            ignore_patterns w' = ignore_patterns w \<and>
            snap_ignore (fst taken) \<noteq> ignore (settings w) \<and>
            ignore (settings w') \<noteq> snap_ignore (fst taken) \<and>
            ignore (settings w') \<noteq> ignore (settings w) \<and>
            (\<exists>a b. ignore (settings w) = Some a \<and> snap_ignore (fst taken) = Some b \<and>
               array_at (snd taken) b = array_at w a \<and>
               array_at ((snd taken)\<lparr>arrays := (arrays (snd taken))[a := changed]\<rparr>) b = array_at w a)"
  unfolding Let_def by (rule snapshot_roundtrip_fields [OF assms refl refl])

theorem snapshot_roundtrip_witness:
  "core_fields_defined one_note \<and>
   ignore_patterns one_note = Some [] \<and>
   ignore_patterns (applyCoreSettingsSnapshot (Some (fst (getCoreSettingsSnapshot one_note)))
      (snd (getCoreSettingsSnapshot one_note))) = Some [] \<and>
   ignore (settings one_note) = Some 0 \<and>
   snap_ignore (fst (getCoreSettingsSnapshot one_note)) = Some 1"
proof -
  have d: "core_fields_defined one_note" "ignore_patterns one_note = Some []"
    "ignore (settings one_note) = Some 0"
    "snap_ignore (fst (getCoreSettingsSnapshot one_note)) = Some 1"
    by code_simp+
  from snapshot_roundtrip [OF d(1), of undefined] d show ?thesis
    unfolding Let_def by (elim conjE) simp
qed

subsection \<open>The pool\<close>

text \<open>
  The capacity is what rule 3 of \<^verbatim>\<open>_getOrCreateGraphView\<close> compares with. A run
  of the pool is any sequence of acquire calls, with anything in between that does
  not lengthen \<^verbatim>\<open>graphViews\<close> and keeps the \<^verbatim>\<open>maxGraphViews\<close> setting, such as
  placements, changes of the host's panes and a teardown.
\<close>

definition pool_capacity :: "world \<Rightarrow> nat" where
  "pool_capacity w = or_number (maxGraphViews (settings w)) DEFAULT_maxGraphViews"

definition attached_to :: "nat \<Rightarrow> world \<Rightarrow> bool" where
  "attached_to v w = list_ex (\<lambda>gv. isDescendantOf gv (ContainerEl v)) (graphViews w)"

definition detached_available :: "world \<Rightarrow> bool" where
  "detached_available w =
     list_ex (\<lambda>gv. \<not> list_ex (isDescendantOf gv) (map ContainerEl (markdownLeaves w))) (graphViews w)"

inductive pool_run :: "world \<Rightarrow> world \<Rightarrow> bool" where
  start: "pool_run w w"
| acquire: "pool_run w w1 \<Longrightarrow> pool_run w (snd (getOrCreateGraphView v w1))"
| other: "pool_run w w1 \<Longrightarrow> length (graphViews w2) \<le> length (graphViews w1) \<Longrightarrow>
          maxGraphViews (settings w2) = maxGraphViews (settings w1) \<Longrightarrow> pool_run w w2"

lemma findIndex_None: "findIndex P xs = None \<longleftrightarrow> \<not> list_ex P xs"
  by (induction xs) auto

lemma findIndex_Some: "findIndex P xs = Some i \<Longrightarrow> i < length xs \<and> P (xs ! i)"
  by (induction xs arbitrary: i) (auto split: if_splits)

lemma pool_capacity_positive: "0 < pool_capacity w"
  by (simp add: pool_capacity_def or_number_def DEFAULT_maxGraphViews_def split: option.splits)

lemma getOrCreateGraphView_cases:
  "(fst (getOrCreateGraphView v w) < length (graphViews w) \<and> snd (getOrCreateGraphView v w) = w) \<or>
   (length (graphViews w) < pool_capacity w \<and>
    getOrCreateGraphView v w =
      (length (graphViews w),
       (snd (new_GraphView w))\<lparr>graphViews := graphViews w @ [fst (new_GraphView w)]\<rparr>))"
proof -
  have "0 < pool_capacity w" by (rule pool_capacity_positive)
  then show ?thesis
    by (auto simp: getOrCreateGraphView_def Let_def pool_capacity_def new_GraphView_def call_def
          dest: findIndex_Some split: option.splits)
qed

lemma getOrCreateGraphView_reuse_first:
  "\<not> attached_to v w \<Longrightarrow> \<not> detached_available w \<Longrightarrow> pool_capacity w \<le> length (graphViews w) \<Longrightarrow>
   getOrCreateGraphView v w = (0, w)"
  by (simp add: getOrCreateGraphView_def Let_def attached_to_def detached_available_def
        findIndex_None [symmetric] pool_capacity_def)

lemma getOrCreateGraphView_frame:
  "settings (snd (getOrCreateGraphView v w)) = settings w"
  "length (graphViews (snd (getOrCreateGraphView v w))) \<le> max (length (graphViews w)) (pool_capacity w)"
  "length (graphViews w) \<le> length (graphViews (snd (getOrCreateGraphView v w)))"
  "fst (getOrCreateGraphView v w) < length (graphViews (snd (getOrCreateGraphView v w)))"
  "take (length (graphViews w)) (graphViews (snd (getOrCreateGraphView v w))) = graphViews w"
  "rebinds (snd (getOrCreateGraphView v w)) = rebinds w"
  "insertions (snd (getOrCreateGraphView v w)) = insertions w"
  "views (snd (getOrCreateGraphView v w)) = views w"
  "timers (snd (getOrCreateGraphView v w)) = timers w"
  using getOrCreateGraphView_cases [of v w]
  by (auto simp: new_GraphView_def Let_def call_def rebinds_def insertions_def)

text \<open>
  Claim C1. Along every run of the pool that starts within a capacity
  \<^verbatim>\<open>maxGraphViews\<close> of at least 1, the pool never holds more handles than the
  capacity; and when it holds that many, no handle is attached to the requesting
  container and none is detached, acquire returns the first handle,
  \<^verbatim>\<open>graphViews[0]\<close>, and leaves the world as it is: it constructs nothing.
\<close>

theorem pool_never_exceeds_capacity:
  assumes "pool_run w w'" and "maxGraphViews (settings w) = Some n" and "1 \<le> n"
    and "length (graphViews w) \<le> n"
  shows "length (graphViews w') \<le> n \<and>
         (n \<le> length (graphViews w') \<and> \<not> attached_to v w' \<and> \<not> detached_available w' \<longrightarrow>
            getOrCreateGraphView v w' = (0, w'))"
proof -
  from assms have inv: "maxGraphViews (settings w') = Some n \<and> length (graphViews w') \<le> n"
  proof (induction rule: pool_run.induct)
    case (start w)
    then show ?case by simp
  next
    case (acquire w w1 v)
    then have "maxGraphViews (settings w1) = Some n" "length (graphViews w1) \<le> n" by simp_all
    moreover from this \<open>1 \<le> n\<close> have "pool_capacity w1 = n"
      by (simp add: pool_capacity_def or_number_def)
    ultimately show ?case
      using getOrCreateGraphView_frame(1,2) [of v w1] by simp
  next
    case (other w w1 w2)
    then show ?case by simp
  qed
  with \<open>1 \<le> n\<close> have "pool_capacity w' = n"
    by (simp add: pool_capacity_def or_number_def)
  with inv show ?thesis
    by (simp add: getOrCreateGraphView_reuse_first)
qed

theorem pool_never_exceeds_capacity_witness:
  "pool_run two_panes (placeGraphView 0 two_panes) \<and>
   maxGraphViews (settings two_panes) = Some 1 \<and>
   length (graphViews two_panes) \<le> 1 \<and>
   length (graphViews (placeGraphView 0 two_panes)) = 1 \<and>
   \<not> attached_to 1 (placeGraphView 0 two_panes) \<and>
   \<not> detached_available (placeGraphView 0 two_panes) \<and>
   getOrCreateGraphView 1 (placeGraphView 0 two_panes) = (0, placeGraphView 0 two_panes)"
proof -
  have a: "length (graphViews (placeGraphView 0 two_panes))
      \<le> length (graphViews (snd (getOrCreateGraphView 0 two_panes)))"
    by code_simp
  have b: "maxGraphViews (settings (placeGraphView 0 two_panes)) =
      maxGraphViews (settings (snd (getOrCreateGraphView 0 two_panes)))"
    by code_simp
  have run: "pool_run two_panes (placeGraphView 0 two_panes)"
    by (rule pool_run.other [OF pool_run.acquire [OF pool_run.start] a b])
  have m: "maxGraphViews (settings two_panes) = Some 1" by code_simp
  have l: "length (graphViews two_panes) \<le> 1" by code_simp
  have c: "length (graphViews (placeGraphView 0 two_panes)) = 1"
    "\<not> attached_to 1 (placeGraphView 0 two_panes)"
    "\<not> detached_available (placeGraphView 0 two_panes)"
    by code_simp+
  from pool_never_exceeds_capacity [OF run m order_refl l, of 1] run m l c show ?thesis
    by simp
qed

subsection \<open>Resolution: placeGraphView\<close>

text \<open>
  A handle is hidden when it has no node, or its node has the class \<^verbatim>\<open>hidden\<close> and
  not \<^verbatim>\<open>graph-banner-visible\<close>. \<open>resolved_hidden v w\<close> says what a resolution
  that only hides does: the world after it is the world after the acquisition with
  \<^verbatim>\<open>setVisibility(false)\<close> applied to the acquired handle. That handle is hidden,
  and its leaf, its set-up, its bound path, its two style flags, the place of its
  node and the other classes of its node are as acquired; the handles that were in
  the pool are the ones acquisition found there; no host call is made after the
  acquisition, and the counts of file-scoped \<^verbatim>\<open>setViewState\<close> calls and of
  insertions are those of before the resolution.
\<close>

definition is_hidden :: "graph_view \<Rightarrow> bool" where
  "is_hidden gv =
     (case node gv of
        None \<Rightarrow> True
      | Some n \<Rightarrow> ''hidden'' \<in> classes n \<and> ''graph-banner-visible'' \<notin> classes n)"

definition is_shown :: "graph_view \<Rightarrow> bool" where
  "is_shown gv =
     (case node gv of
        None \<Rightarrow> False
      | Some n \<Rightarrow> ''hidden'' \<notin> classes n \<and> ''graph-banner-visible'' \<in> classes n)"

definition other_classes :: "gnode \<Rightarrow> string set" where
  "other_classes n = classes n - {''hidden'', ''graph-banner-visible''}"

definition same_but_visibility :: "graph_view \<Rightarrow> graph_view \<Rightarrow> bool" where
  "same_but_visibility g g' =
     (leaf g' = leaf g \<and> setupLeafPromise g' = setupLeafPromise g \<and>
      currentFilePath g' = currentFilePath g \<and> compact g' = compact g \<and>
      mobileSimplified g' = mobileSimplified g \<and>
      map_option inside (node g') = map_option inside (node g) \<and>
      map_option other_classes (node g') = map_option other_classes (node g))"

lemma setVisibility_False:
  "is_hidden (setVisibility False g)" "same_but_visibility g (setVisibility False g)"
  by (cases "node g";
      auto simp: setVisibility_def on_node_def is_hidden_def same_but_visibility_def
        toggleClass_def addClass_def removeClass_def other_classes_def)+

lemma visibility_classes:
  "insert ''hidden'' (insert ''graph-banner-visible'' (A - {''hidden''})) - {''graph-banner-visible''} =
     insert ''hidden'' A - {''graph-banner-visible''}"
  "insert ''graph-banner-visible'' (insert ''hidden'' A - {''graph-banner-visible''} - {''hidden''}) =
     insert ''graph-banner-visible'' (A - {''hidden''})"
  "insert ''hidden'' (insert ''hidden'' A - {''graph-banner-visible''}) =
     insert ''hidden'' A - {''graph-banner-visible''}"
  "insert ''graph-banner-visible'' (insert ''graph-banner-visible'' (A - {''hidden''}) - {''hidden''}) =
     insert ''graph-banner-visible'' (A - {''hidden''})"
  by auto

lemma setVisibility_twice:
  "setVisibility b (setVisibility c g) = setVisibility b g"
  by (cases "node g"; cases b; cases c)
     (simp_all add: setVisibility_def on_node_def toggleClass_def addClass_def removeClass_def
        visibility_classes)

lemma update_view_twice:
  "update_view i f (update_view i g w) = update_view i (\<lambda>x. f (g x)) w"
  by (cases "i < length (graphViews w)") (simp_all add: update_view_def list_update_beyond)

definition resolved_hidden :: "nat \<Rightarrow> world \<Rightarrow> bool" where
  "resolved_hidden v w =
     (let got = getOrCreateGraphView v w; i = fst got; w1 = snd got; w' = placeGraphView v w
      in w' = update_view i (setVisibility False) w1 \<and>
         is_hidden (graphViews w' ! i) \<and>
         same_but_visibility (graphViews w1 ! i) (graphViews w' ! i) \<and>
         take (length (graphViews w)) (graphViews w1) = graphViews w \<and>
         trace w' = trace w1 \<and> rebinds w' = rebinds w \<and> insertions w' = insertions w)"

lemma resolved_hiddenI:
  assumes "placeGraphView v w =
     update_view (fst (getOrCreateGraphView v w)) (setVisibility False) (snd (getOrCreateGraphView v w))"
  shows "resolved_hidden v w"
proof -
  let ?i = "fst (getOrCreateGraphView v w)" and ?w1 = "snd (getOrCreateGraphView v w)"
  have i: "?i < length (graphViews ?w1)" by (rule getOrCreateGraphView_frame)
  have "rebinds (update_view ?i (setVisibility False) ?w1) = rebinds ?w1"
    "insertions (update_view ?i (setVisibility False) ?w1) = insertions ?w1"
    "trace (update_view ?i (setVisibility False) ?w1) = trace ?w1"
    by (simp_all add: update_view_def rebinds_def insertions_def)
  moreover have "graphViews (update_view ?i (setVisibility False) ?w1) ! ?i =
      setVisibility False (graphViews ?w1 ! ?i)"
    using i by (simp add: update_view_def)
  ultimately show ?thesis
    unfolding resolved_hidden_def Let_def assms
    by (simp add: setVisibility_False getOrCreateGraphView_frame)
qed

text \<open>
  Claim C7. When a resolution runs for a Markdown document whose path is per-note
  disabled or matches the ignore rules, the acquired handle only has its visibility
  set to false: its bound path and its compact and simplified flags stay as they
  were, nothing is bound and nothing is inserted, so a bound handle stays bound while
  hidden.
\<close>

theorem disabled_or_ignored_only_hides:
  assumes "view_file (views w v) = Some f" and "extension f = ''md''"
    and "isNoteDisabled (path f) w \<or> matchIgnore (path f) (ignore_patterns w)"
  shows "resolved_hidden v w"
proof (rule resolved_hiddenI)
  show "placeGraphView v w =
     update_view (fst (getOrCreateGraphView v w)) (setVisibility False) (snd (getOrCreateGraphView v w))"
    using assms by (auto simp: placeGraphView_def Let_def)
qed

theorem disabled_or_ignored_only_hides_witness:
  "view_file (views muted_note 0) = Some x_md \<and> extension x_md = ''md'' \<and>
   isNoteDisabled (path x_md) muted_note \<and> resolved_hidden 0 muted_note \<and>
   bound_path 0 muted_note = Some ''Archive/x.md''"
proof -
  have a: "view_file (views muted_note 0) = Some x_md" "extension x_md = ''md''"
    "isNoteDisabled (path x_md) muted_note"
    by code_simp+
  have b: "bound_path 0 muted_note = Some ''Archive/x.md''"
    by code_simp
  from disabled_or_ignored_only_hides [OF a(1,2) disjI1 [OF a(3)]] a b show ?thesis
    by simp
qed

text \<open>
  Claim C8. For a Markdown document that is neither per-note disabled nor ignored,
  in the edit mode (\<^verbatim>\<open>source\<close>) with \<^verbatim>\<open>showInEditMode\<close> set to \<^verbatim>\<open>hidden\<close>, the
  resolution leaves the acquired handle hidden and returns without binding or
  placing it.
\<close>

theorem edit_mode_hidden:
  assumes "view_file (views w v) = Some f" and "extension f = ''md''"
    and "\<not> isNoteDisabled (path f) w" and "\<not> matchIgnore (path f) (ignore_patterns w)"
    and "getMode (views w v) = ''source''" and "showInEditMode (settings w) = Some ''hidden''"
  shows "resolved_hidden v w"
proof (rule resolved_hiddenI)
  let ?i = "fst (getOrCreateGraphView v w)" and ?w1 = "snd (getOrCreateGraphView v w)"
  have "views ?w1 = views w" "settings ?w1 = settings w"
    by (simp_all add: getOrCreateGraphView_frame)
  then have "getMode (views (update_view ?i (setVisibility True) ?w1) v) = ''source''"
    "or_string (showInEditMode (settings (update_view ?i (setVisibility True) ?w1)))
       DEFAULT_showInEditMode = ''hidden''"
    using assms by (simp_all add: update_view_def or_string_def)
  with assms show "placeGraphView v w = update_view ?i (setVisibility False) ?w1"
    by (simp add: placeGraphView_def Let_def update_view_twice setVisibility_twice)
qed

theorem edit_mode_hidden_witness:
  "view_file (views edit_hidden_note 0) = Some x_md \<and> extension x_md = ''md'' \<and>
   \<not> isNoteDisabled (path x_md) edit_hidden_note \<and>
   \<not> matchIgnore (path x_md) (ignore_patterns edit_hidden_note) \<and>
   getMode (views edit_hidden_note 0) = ''source'' \<and>
   showInEditMode (settings edit_hidden_note) = Some ''hidden'' \<and>
   resolved_hidden 0 edit_hidden_note"
proof -
  have a: "view_file (views edit_hidden_note 0) = Some x_md" "extension x_md = ''md''"
    "\<not> isNoteDisabled (path x_md) edit_hidden_note"
    "\<not> matchIgnore (path x_md) (ignore_patterns edit_hidden_note)"
    "getMode (views edit_hidden_note 0) = ''source''"
    "showInEditMode (settings edit_hidden_note) = Some ''hidden''"
    by code_simp+
  from edit_mode_hidden [OF a] a show ?thesis
    by simp
qed

subsection \<open>The per-note toggle\<close>

text \<open>
  \<open>disabled_paths\<close> is the list that \<^verbatim>\<open>toggleCurrentNote\<close> and
  \<^verbatim>\<open>isNoteDisabled\<close> read, \<open>toggled_paths\<close> what the toggle makes of it, and
  \<open>list_flipped p w\<close> the world when the toggle has written the list, shown its
  notice and saved. \<open>gates_open\<close> holds when nothing but the per-note list can
  hide the banner of the view's document, \<open>placeable\<close> when the handle that
  acquisition gives has a node and the view has its mode container and title.
\<close>

definition disabled_paths :: "world \<Rightarrow> string list" where
  "disabled_paths w = (case perNoteDisabledPaths (settings w) of None \<Rightarrow> [] | Some l \<Rightarrow> l)"

definition toggled_paths :: "string \<Rightarrow> string list \<Rightarrow> string list" where
  "toggled_paths p ps = (if p \<in> set ps then remove1 p ps else ps @ [p])"

definition placeable :: "nat \<Rightarrow> world \<Rightarrow> bool" where
  "placeable v w =
     (let got = getOrCreateGraphView v w
      in node_available (fst got) (snd got) \<and> modeContainerFound (views w v) \<and>
         titleParentFound (views w v))"

definition placed_in :: "nat \<Rightarrow> graph_view \<Rightarrow> bool" where
  "placed_in v gv = (case node gv of None \<Rightarrow> False | Some n \<Rightarrow> contains (ContainerEl v) n)"

lemma isNoteDisabled_paths: "isNoteDisabled p w = (p \<in> set (disabled_paths w))"
  by (simp add: isNoteDisabled_def disabled_paths_def)

lemma same_config_getOrCreateGraphView: "same_config w (snd (getOrCreateGraphView v w))"
  using getOrCreateGraphView_cases [of v w]
  by (auto simp: new_GraphView_def Let_def call_def same_config_def)

lemma same_config_placeGraphView: "same_config w (placeGraphView v w)"
  unfolding placeGraphView_def Let_def
  by (simp add: same_config_def same_config_fields [OF same_config_placeTo]
        same_config_fields [OF same_config_getOrCreateGraphView] update_view_def
        split: option.splits)

lemma placeTo_shows:
  assumes "i < length (graphViews w)" and "node_available i w"
    and "view_file (views w v) = Some f" and "modeContainerFound (views w v)"
    and "titleParentFound (views w v)"
  shows "is_shown (graphViews (placeTo i v opts (update_view i (setVisibility True) w)) ! i)"
    and "placed_in v (graphViews (placeTo i v opts (update_view i (setVisibility True) w)) ! i)"
    and "bound_path i (placeTo i v opts (update_view i (setVisibility True) w)) = Some (path f)"
proof -
  let ?u = "update_view i (setVisibility True) w"
  let ?w = "setupLeaf i ?u"
  have u: "i < length (graphViews ?u)" "node_available i ?u" "view_file (views ?u v) = Some f"
    using assms(1-3)
    by (auto simp: update_view_def node_available_def setVisibility_def on_node_def
          split: setup_state.splits)
  from placeTo_binds(1) [OF u]
  show "bound_path i (placeTo i v opts ?u) = Some (path f)" .
  have n: "node (graphViews ?w ! i) \<noteq> None" "i < length (graphViews ?w)"
    using u by (simp_all add: setupLeaf_node setupLeaf_frame)
  then obtain m where m: "node (graphViews ?w ! i) = Some m" by auto
  have h: "''hidden'' \<notin> classes m"
    using m assms(1)
    by (auto simp: setupLeaf_def Let_def update_view_def call_def removeChild_def setTimeout_def
          setVisibility_def on_node_def setupNode_def toggleClass_def addClass_def removeClass_def
          split: setup_state.splits option.splits if_splits)
  have v: "view_file (views ?w v) = Some f" "modeContainerFound (views ?w v)"
    "titleParentFound (views ?w v)"
    using assms(3-5) by (simp_all add: setupLeaf_frame update_view_def)
  from n m h v show "is_shown (graphViews (placeTo i v opts ?u) ! i)"
    unfolding placeTo_undisturbed Let_def is_shown_def
    by (auto simp: update_view_def call_def on_node_def setCompact_def setMobileSimplified_def
          toggleClass_def addClass_def removeClass_def isDescendantOf_def split: option.splits)
  from n m v show "placed_in v (graphViews (placeTo i v opts ?u) ! i)"
    unfolding placeTo_undisturbed Let_def placed_in_def
    by (auto simp: update_view_def call_def on_node_def setCompact_def setMobileSimplified_def
          toggleClass_def addClass_def removeClass_def isDescendantOf_def split: option.splits)
qed

definition gates_open :: "nat \<Rightarrow> world \<Rightarrow> bool" where
  "gates_open v w =
     (case view_file (views w v) of
        None \<Rightarrow> False
      | Some f \<Rightarrow>
          extension f = ''md'' \<and> \<not> matchIgnore (path f) (ignore_patterns w) \<and>
          \<not> (getMode (views w v) = ''source'' \<and>
             or_string (showInEditMode (settings w)) DEFAULT_showInEditMode = ''hidden'') \<and>
          \<not> (isMobile w \<and> or_string (mobileMode (settings w)) DEFAULT_mobileMode = ''disabled''))"

definition list_flipped :: "string \<Rightarrow> world \<Rightarrow> world" where
  "list_flipped p w =
     call [Notice (if isNoteDisabled p w then BannerReopened else BannerClosed), SaveData]
       (w\<lparr>settings := (settings w)\<lparr>perNoteDisabledPaths := Some (toggled_paths p (disabled_paths w))\<rparr>\<rparr>)"

lemma toggled_paths_set:
  "distinct ps \<Longrightarrow> set (toggled_paths p ps) = (if p \<in> set ps then set ps - {p} else insert p (set ps))"
  "distinct ps \<Longrightarrow> distinct (toggled_paths p ps)"
  "distinct ps \<Longrightarrow> set (toggled_paths p (toggled_paths p ps)) = set ps"
  by (auto simp: toggled_paths_def)

lemma list_flipped_fields:
  "views (list_flipped p w) = views w"
  "activeView (list_flipped p w) = activeView w"
  "isMobile (list_flipped p w) = isMobile w"
  "ignore_patterns (list_flipped p w) = ignore_patterns w"
  "showInEditMode (settings (list_flipped p w)) = showInEditMode (settings w)"
  "mobileMode (settings (list_flipped p w)) = mobileMode (settings w)"
  "graphViews (list_flipped p w) = graphViews w"
  by (simp_all add: list_flipped_def call_def ignore_patterns_def array_at_def split: option.splits)

lemma toggleCurrentNote_resolves:
  assumes "activeView w = Some v" and "view_file (views w v) = Some f" and "path f = p"
  shows "toggleCurrentNote p w = placeGraphView v (list_flipped p w)"
proof -
  have eq: "(case perNoteDisabledPaths (settings w) of None \<Rightarrow> [] | Some l \<Rightarrow> l) = disabled_paths w"
    by (simp add: disabled_paths_def)
  show ?thesis
  proof (cases "p \<in> set (disabled_paths w)")
    case True
    with assms show ?thesis
      unfolding toggleCurrentNote_def Let_def eq
      by (simp add: list_flipped_def call_def toggled_paths_def isNoteDisabled_paths)
  next
    case False
    with assms show ?thesis
      unfolding toggleCurrentNote_def Let_def eq
      by (simp add: list_flipped_def call_def toggled_paths_def isNoteDisabled_paths)
  qed
qed

lemma disabled_paths_list_flipped:
  "disabled_paths (list_flipped p w) = toggled_paths p (disabled_paths w)"
  by (simp add: list_flipped_def call_def disabled_paths_def)

lemma disabled_paths_toggleCurrentNote:
  assumes "activeView w = Some v" and "view_file (views w v) = Some f" and "path f = p"
  shows "disabled_paths (toggleCurrentNote p w) = toggled_paths p (disabled_paths w)"
proof -
  have "settings (placeGraphView v (list_flipped p w)) = settings (list_flipped p w)"
    by (rule same_config_fields [OF same_config_placeGraphView])
  then show ?thesis
    using disabled_paths_list_flipped [of p w]
    by (simp add: toggleCurrentNote_resolves [OF assms] disabled_paths_def)
qed

lemma placeGraphView_places:
  assumes "view_file (views w v) = Some f" and "\<not> isNoteDisabled (path f) w" and "gates_open v w"
    and "placeable v w"
  shows "is_shown (graphViews (placeGraphView v w) ! fst (getOrCreateGraphView v w))"
    and "placed_in v (graphViews (placeGraphView v w) ! fst (getOrCreateGraphView v w))"
    and "bound_path (fst (getOrCreateGraphView v w)) (placeGraphView v w) = Some (path f)"
proof -
  let ?i = "fst (getOrCreateGraphView v w)" and ?w1 = "snd (getOrCreateGraphView v w)"
  note fr = same_config_fields [OF same_config_getOrCreateGraphView, of v w]
  have g: "extension f = ''md''" "\<not> matchIgnore (path f) (ignore_patterns w)"
    "\<not> (getMode (views w v) = ''source'' \<and>
        or_string (showInEditMode (settings w)) DEFAULT_showInEditMode = ''hidden'')"
    "\<not> (isMobile w \<and> or_string (mobileMode (settings w)) DEFAULT_mobileMode = ''disabled'')"
    using assms(1,3) by (simp_all add: gates_open_def)
  have "placeGraphView v w =
      placeTo ?i v
        (Some (getMode (views w v) = ''source'' \<and>
                 or_string (showInEditMode (settings w)) DEFAULT_showInEditMode = ''compact'',
               isMobile w \<and> or_string (mobileMode (settings w)) DEFAULT_mobileMode = ''simplified''))
        (update_view ?i (setVisibility True) ?w1)"
    using assms(1,2) g
    by (auto simp: placeGraphView_def Let_def update_view_twice setVisibility_twice fr
          same_config_fields [OF same_config_steps(1)])
  moreover have "?i < length (graphViews ?w1)" "node_available ?i ?w1"
    "view_file (views ?w1 v) = Some f" "modeContainerFound (views ?w1 v)"
    "titleParentFound (views ?w1 v)"
    using assms(1,4) by (simp_all add: getOrCreateGraphView_frame placeable_def Let_def fr)
  ultimately show "is_shown (graphViews (placeGraphView v w) ! ?i)"
    "placed_in v (graphViews (placeGraphView v w) ! ?i)"
    "bound_path ?i (placeGraphView v w) = Some (path f)"
    by (simp_all add: placeTo_shows)
qed

text \<open>
  Claim C9, as amended. Applied to the path of the active document, on a disable list
  without duplicate entries, the toggle flips that path's membership (it appends the
  path if absent and removes it if present), so that toggling twice restores the set
  of disabled paths (not the order of the list: a path taken from the middle comes
  back at the end); it then at once resolves placement for that document. Toggling a
  disabled note shows the banner again, placed in the view and bound to the document,
  when no other gate hides it (a Markdown file, not ignored, not hidden by the edit
  mode or the mobile setting) and the handle can be placed.
\<close>

theorem toggle_flips_and_resolves:
  assumes "distinct (disabled_paths w)" and "activeView w = Some v"
    and "view_file (views w v) = Some f" and "path f = p"
  shows "isNoteDisabled p (toggleCurrentNote p w) = (\<not> isNoteDisabled p w) \<and>
         set (disabled_paths (toggleCurrentNote p w)) =
           (if isNoteDisabled p w then set (disabled_paths w) - {p}
            else insert p (set (disabled_paths w))) \<and>
         distinct (disabled_paths (toggleCurrentNote p w)) \<and>
         set (disabled_paths (toggleCurrentNote p (toggleCurrentNote p w))) = set (disabled_paths w) \<and>
         toggleCurrentNote p w = placeGraphView v (list_flipped p w) \<and>
         (isNoteDisabled p w \<and> gates_open v w \<and> placeable v (list_flipped p w) \<longrightarrow>
            is_shown (graphViews (toggleCurrentNote p w) ! fst (getOrCreateGraphView v (list_flipped p w))) \<and>
            placed_in v (graphViews (toggleCurrentNote p w) ! fst (getOrCreateGraphView v (list_flipped p w))) \<and>
            bound_path (fst (getOrCreateGraphView v (list_flipped p w))) (toggleCurrentNote p w) = Some p)"
proof -
  let ?w' = "toggleCurrentNote p w"
  note once = disabled_paths_toggleCurrentNote [OF assms(2-4)]
  have res: "?w' = placeGraphView v (list_flipped p w)"
    by (rule toggleCurrentNote_resolves [OF assms(2-4)])
  have still: "activeView ?w' = Some v" "view_file (views ?w' v) = Some f"
    using assms(2,3)
    by (simp_all add: res same_config_fields [OF same_config_placeGraphView] list_flipped_fields)
  have twice: "disabled_paths (toggleCurrentNote p ?w') = toggled_paths p (toggled_paths p (disabled_paths w))"
    by (simp add: disabled_paths_toggleCurrentNote [OF still assms(4)] once)
  have shown: "is_shown (graphViews ?w' ! fst (getOrCreateGraphView v (list_flipped p w))) \<and>
      placed_in v (graphViews ?w' ! fst (getOrCreateGraphView v (list_flipped p w))) \<and>
      bound_path (fst (getOrCreateGraphView v (list_flipped p w))) ?w' = Some p"
    if "isNoteDisabled p w" "gates_open v w" "placeable v (list_flipped p w)"
  proof -
    have f: "view_file (views (list_flipped p w) v) = Some f"
      using assms(3) by (simp add: list_flipped_fields)
    have "\<not> isNoteDisabled (path f) (list_flipped p w)"
      using that(1) assms(1,4)
      by (simp add: isNoteDisabled_paths disabled_paths_list_flipped toggled_paths_set)
    moreover have "gates_open v (list_flipped p w)"
      using that(2) by (simp add: gates_open_def list_flipped_fields split: option.splits)
    ultimately show ?thesis
      using placeGraphView_places [OF f _ _ that(3)] assms(4) by (simp add: res)
  qed
  from assms(1) have "set (toggled_paths p (toggled_paths p (disabled_paths w))) = set (disabled_paths w)"
    by (rule toggled_paths_set(3))
  with assms(1) once twice res shown show ?thesis
    by (auto simp: isNoteDisabled_paths toggled_paths_set(1,2))
qed

theorem toggle_flips_and_resolves_witness:
  "distinct (disabled_paths muted_note) \<and> activeView muted_note = Some 0 \<and>
   view_file (views muted_note 0) = Some x_md \<and> path x_md = ''Archive/x.md'' \<and>
   isNoteDisabled ''Archive/x.md'' muted_note \<and>
   \<not> isNoteDisabled ''Archive/x.md'' (toggleCurrentNote ''Archive/x.md'' muted_note) \<and>
   is_shown (graphViews (toggleCurrentNote ''Archive/x.md'' muted_note) ! 0)"
proof -
  have a: "distinct (disabled_paths muted_note)" "activeView muted_note = Some 0"
    "view_file (views muted_note 0) = Some x_md" "path x_md = ''Archive/x.md''"
    by code_simp+
  have b: "isNoteDisabled ''Archive/x.md'' muted_note" "gates_open 0 muted_note"
    "placeable 0 (list_flipped ''Archive/x.md'' muted_note)"
    "fst (getOrCreateGraphView 0 (list_flipped ''Archive/x.md'' muted_note)) = 0"
    by code_simp+
  from toggle_flips_and_resolves [OF a] a b show ?thesis
    by (elim conjE) simp
qed

text \<open>
  The claim as first stated fails: with the list \<^verbatim>\<open>[Archive/x.md, b.md]\<close> two
  toggles of \<^verbatim>\<open>Archive/x.md\<close> give \<^verbatim>\<open>[b.md, Archive/x.md]\<close>; with the path
  twice in the list one toggle leaves the note disabled; and a disabled note that also
  matches an ignore rule stays hidden after the toggle.
\<close>

theorem toggle_twice_counterexample:
  "disabled_paths (one_note\<lparr>settings := DEFAULT_SETTINGS\<lparr>perNoteDisabledPaths := Some [''Archive/x.md'', ''b.md'']\<rparr>\<rparr>)
     = [''Archive/x.md'', ''b.md''] \<and>
   disabled_paths (toggleCurrentNote ''Archive/x.md'' (toggleCurrentNote ''Archive/x.md''
      (one_note\<lparr>settings := DEFAULT_SETTINGS\<lparr>perNoteDisabledPaths := Some [''Archive/x.md'', ''b.md'']\<rparr>\<rparr>)))
     = [''b.md'', ''Archive/x.md''] \<and>
   isNoteDisabled ''Archive/x.md'' (toggleCurrentNote ''Archive/x.md''
      (one_note\<lparr>settings := DEFAULT_SETTINGS\<lparr>perNoteDisabledPaths := Some [''Archive/x.md'', ''Archive/x.md'']\<rparr>\<rparr>)) \<and>
   is_hidden (graphViews (toggleCurrentNote ''Archive/x.md''
      (muted_note\<lparr>arrays := [[''Archive/*'']]\<rparr>)) ! 0)"
  by code_simp

subsection \<open>Running the timers\<close>

text \<open>
  \<open>advance t\<close> lets the time pass up to \<open>t\<close>: the host fires the timers that are
  due, one after the other. It ends because firing a timer takes it from the
  queue, a removal sets no timer, and a resolution sets at most one removal.
\<close>

lemmas placeGraphView_fields = same_config_fields [OF same_config_placeGraphView]

fun is_debounce :: "callback \<Rightarrow> bool" where
  "is_debounce (PlaceGraphView v) = True"
| "is_debounce (RemoveChild l) = False"

definition debounces :: "world \<Rightarrow> timer list" where
  "debounces w = filter (\<lambda>x. is_debounce (callback x)) (timers w)"

lemma timers_setupLeaf:
  "timers (setupLeaf i w) = timers w \<or>
   (\<exists>x. callback x = RemoveChild (leaf (graphViews w ! i)) \<and> timers (setupLeaf i w) = timers w @ [x])"
  by (simp add: setupLeaf_def Let_def update_view_def call_def removeChild_def setTimeout_def
        split: setup_state.splits option.splits)

lemma timers_placeTo: "timers (placeTo i v opts w) = timers (setupLeaf i w)"
  unfolding placeTo_undisturbed Let_def
  by (simp add: update_view_def call_def split: option.splits)

definition adds_removal :: "world \<Rightarrow> world \<Rightarrow> bool" where
  "adds_removal w w' =
     (timers w' = timers w \<or>
      (\<exists>x l. callback x = RemoveChild l \<and> timers w' = timers w @ [x]))"

lemma adds_removal_same: "timers w' = timers w \<Longrightarrow> adds_removal w w'"
  by (simp add: adds_removal_def)

lemma adds_removal_placeTo: "timers w1 = timers w \<Longrightarrow> adds_removal w (placeTo i v opts w1)"
  using timers_setupLeaf [of i w1] by (auto simp: adds_removal_def timers_placeTo)

lemma adds_removal_placeGraphView: "adds_removal w (placeGraphView v w)"
proof -
  have u: "timers (update_view i f w') = timers w'" for i f w'
    by (simp add: update_view_def)
  have g: "timers (snd (getOrCreateGraphView v w)) = timers w"
    by (rule getOrCreateGraphView_frame)
  show ?thesis
    unfolding placeGraphView_def Let_def
    by (auto simp: u g adds_removal_same split: option.splits intro!: adds_removal_placeTo)
qed

lemma timers_placeGraphView:
  "timers (placeGraphView v w) = timers w \<or>
   (\<exists>x l. callback x = RemoveChild l \<and> timers (placeGraphView v w) = timers w @ [x])"
  using adds_removal_placeGraphView [of w v] by (simp add: adds_removal_def)

lemma pending_weight_placeGraphView: "pending_weight (placeGraphView v w) \<le> Suc (pending_weight w)"
  using timers_placeGraphView [of v w] by (auto simp: pending_weight_def)

lemma debounces_placeGraphView: "debounces (placeGraphView v w) = debounces w"
  using timers_placeGraphView [of v w] by (auto simp: debounces_def)

lemma earliest_None: "earliest ts = None \<longleftrightarrow> ts = []"
  by (induction ts) (auto split: option.splits)

lemma earliest_Some: "earliest ts = Some x \<Longrightarrow> x \<in> set ts \<and> (\<forall>y\<in>set ts. due x \<le> due y)"
  by (induction ts arbitrary: x) (force simp: earliest_None split: option.splits if_splits)+

lemma next_due_Some:
  "next_due t w = Some x \<Longrightarrow> x \<in> set (timers w) \<and> due x \<le> t \<and> (\<forall>y\<in>set (timers w). due x \<le> due y)"
  by (auto simp: next_due_def dest: earliest_Some split: option.splits if_splits)

lemma sum_list_remove1_weight:
  "x \<in> set ts \<Longrightarrow>
   sum_list (map f (remove1 x ts)) + f x = sum_list (map (f :: timer \<Rightarrow> nat) ts)"
  by (induction ts) auto

lemma pending_weight_fire:
  assumes "x \<in> set (timers w)"
  shows "pending_weight (fire x w) < pending_weight w"
proof -
  let ?w = "w\<lparr>timers := remove1 x (timers w), now := max (now w) (due x),
            fired := fired w @ [(max (now w) (due x), callback x)]\<rparr>"
  have r: "pending_weight ?w + callback_weight (callback x) = pending_weight w"
    using sum_list_remove1_weight [OF assms, of "\<lambda>x. callback_weight (callback x)"]
    by (simp add: pending_weight_def)
  show ?thesis
  proof (cases "callback x")
    case (PlaceGraphView v)
    then show ?thesis
      using pending_weight_placeGraphView [of v ?w] r by (simp add: fire_def)
  next
    case (RemoveChild l)
    then have "pending_weight (fire x w) = pending_weight ?w"
      by (simp add: fire_def removeChild_def pending_weight_def call_def)
    with r RemoveChild show ?thesis by simp
  qed
qed

function advance :: "nat \<Rightarrow> world \<Rightarrow> world" where
  "advance t w =
     (case next_due t w of
        None \<Rightarrow> w\<lparr>now := max (now w) t\<rparr>
      | Some x \<Rightarrow> advance t (fire x w))"
  by pat_completeness auto
termination
  by (relation "measure (\<lambda>(t, w). pending_weight w)")
     (auto dest: next_due_Some intro: pending_weight_fire)

declare advance.simps [simp del]

lemma advance_None: "next_due t w = None \<Longrightarrow> advance t w = w\<lparr>now := max (now w) t\<rparr>"
  by (simp add: advance.simps)

lemma advance_Some: "next_due t w = Some x \<Longrightarrow> advance t w = advance t (fire x w)"
  by (simp add: advance.simps)

subsection \<open>Debounce\<close>

text \<open>
  \<open>quiet_window\<close> is the wait of the handler, \<open>resolutions\<close> the resolutions
  that timers ran (the time and the view of each), and \<open>pending_debounce w d v\<close>
  says that exactly one debounce timer is pending, the one \<^verbatim>\<open>_layoutTimer\<close> names,
  due at \<open>d\<close> for the view \<open>v\<close>.
\<close>

definition quiet_window :: "world \<Rightarrow> nat" where
  "quiet_window w =
     (case layoutDebounceMs (settings w) of None \<Rightarrow> DEFAULT_layoutDebounceMs | Some n \<Rightarrow> n)"

fun resolution :: "nat \<times> callback \<Rightarrow> (nat \<times> nat) option" where
  "resolution (t, PlaceGraphView v) = Some (t, v)"
| "resolution (t, RemoveChild l) = None"

definition resolutions :: "world \<Rightarrow> (nat \<times> nat) list" where
  "resolutions w = List.map_filter resolution (fired w)"

text \<open>
  A burst: each trigger comes with the time since the one before and with the
  active Markdown view the host then reports.
\<close>

fun burst :: "(nat \<times> nat option) list \<Rightarrow> world \<Rightarrow> world" where
  "burst [] w = w"
| "burst (tr # rest) w =
     burst rest (layout_change ((advance (now w + fst tr) w)\<lparr>activeView := snd tr\<rparr>))"

definition pending_debounce :: "world \<Rightarrow> nat \<Rightarrow> nat \<Rightarrow> bool" where
  "pending_debounce w d v =
     (\<exists>x. debounces w = [x] \<and> due x = d \<and> callback x = PlaceGraphView v \<and>
          layoutTimer w = Some (tid x) \<and> now w \<le> d)"

lemma map_filter_snoc: "List.map_filter f (xs @ [x]) =
    List.map_filter f xs @ (case f x of None \<Rightarrow> [] | Some y \<Rightarrow> [y])"
  by (simp add: List.map_filter_def split: option.splits)

lemma fire_removal:
  assumes "callback x = RemoveChild l"
  shows "debounces (fire x w) = debounces w" "resolutions (fire x w) = resolutions w"
    "settings (fire x w) = settings w" "layoutTimer (fire x w) = layoutTimer w"
    "now (fire x w) = max (now w) (due x)"
proof -
  have "\<not> is_debounce (callback x)" using assms by simp
  then have "filter (\<lambda>y. is_debounce (callback y)) (remove1 x (timers w)) =
      filter (\<lambda>y. is_debounce (callback y)) (timers w)"
    by (simp add: filter_remove1 remove1_idem)
  then show "debounces (fire x w) = debounces w"
    using assms by (simp add: fire_def debounces_def removeChild_def call_def)
  show "resolutions (fire x w) = resolutions w"
    using assms by (simp add: fire_def resolutions_def removeChild_def call_def map_filter_snoc)
  show "settings (fire x w) = settings w" "layoutTimer (fire x w) = layoutTimer w"
    "now (fire x w) = max (now w) (due x)"
    using assms by (simp_all add: fire_def removeChild_def call_def)
qed

lemma fire_debounce:
  assumes "callback x = PlaceGraphView v" and "debounces w = [x]"
  shows "debounces (fire x w) = []"
    "resolutions (fire x w) = resolutions w @ [(max (now w) (due x), v)]"
    "settings (fire x w) = settings w"
proof -
  let ?w = "w\<lparr>timers := remove1 x (timers w), now := max (now w) (due x),
            fired := fired w @ [(max (now w) (due x), callback x)]\<rparr>"
  have "debounces ?w = remove1 x (debounces w)"
    by (simp add: debounces_def filter_remove1)
  with assms show "debounces (fire x w) = []"
    by (simp add: fire_def debounces_placeGraphView)
  show "resolutions (fire x w) = resolutions w @ [(max (now w) (due x), v)]"
    using assms by (simp add: fire_def resolutions_def placeGraphView_fields map_filter_snoc)
  show "settings (fire x w) = settings w"
    using assms by (simp add: fire_def placeGraphView_fields)
qed

lemma advance_quiet:
  "debounces w = [] \<Longrightarrow>
   debounces (advance t w) = [] \<and> resolutions (advance t w) = resolutions w \<and>
   settings (advance t w) = settings w \<and> layoutTimer (advance t w) = layoutTimer w \<and>
   now (advance t w) = max (now w) t"
proof (induction t w rule: advance.induct)
  case (1 t w)
  show ?case
  proof (cases "next_due t w")
    case None
    then show ?thesis
      using "1.prems" by (simp add: advance_None debounces_def resolutions_def)
  next
    case (Some x)
    then have x: "x \<in> set (timers w)" "due x \<le> t" by (auto dest: next_due_Some)
    with "1.prems" have "\<not> is_debounce (callback x)"
      by (auto simp: debounces_def filter_empty_conv)
    then obtain l where l: "callback x = RemoveChild l" by (cases "callback x") auto
    from "1.IH" [OF Some] "1.prems" x fire_removal [OF l, of w] show ?thesis
      by (simp add: advance_Some [OF Some] max.assoc max_absorb2)
  qed
qed

lemma not_due_before:
  assumes "pending_debounce w d v" and "next_due t w = Some x" and "t < d"
  shows "\<exists>l. callback x = RemoveChild l"
proof (cases "callback x")
  case (PlaceGraphView u)
  from assms(2) have x: "x \<in> set (timers w)" "due x \<le> t" by (auto dest: next_due_Some)
  with PlaceGraphView have "x \<in> set (debounces w)" by (simp add: debounces_def)
  with assms(1) have "due x = d" by (auto simp: pending_debounce_def)
  with x assms(3) show ?thesis by simp
qed simp

lemma pending_debounce_fire_removal:
  assumes "pending_debounce w d v" and "callback x = RemoveChild l"
    and "x \<in> set (timers w)" and "\<forall>y\<in>set (timers w). due x \<le> due y"
  shows "pending_debounce (fire x w) d v"
proof -
  from assms(1) obtain y where y: "debounces w = [y]" "due y = d" "callback y = PlaceGraphView v"
    "layoutTimer w = Some (tid y)" "now w \<le> d"
    by (auto simp: pending_debounce_def)
  from y(1) have "y \<in> set (timers w)"
    by (metis debounces_def filter_is_subset list.set_intros(1) subsetD)
  with assms(4) y(2) have "due x \<le> d" by auto
  with y fire_removal [OF assms(2), of w] show ?thesis
    by (auto simp: pending_debounce_def)
qed

lemma advance_before:
  "pending_debounce w d v \<Longrightarrow> t < d \<Longrightarrow>
   pending_debounce (advance t w) d v \<and> resolutions (advance t w) = resolutions w \<and>
   settings (advance t w) = settings w \<and> now (advance t w) = max (now w) t"
proof (induction t w rule: advance.induct)
  case (1 t w)
  show ?case
  proof (cases "next_due t w")
    case None
    then show ?thesis
      using "1.prems"
      by (auto simp: advance_None pending_debounce_def debounces_def resolutions_def)
  next
    case (Some x)
    from not_due_before [OF "1.prems"(1) Some "1.prems"(2)]
    obtain l where l: "callback x = RemoveChild l" by auto
    from Some have x: "x \<in> set (timers w)" "due x \<le> t" "\<forall>y\<in>set (timers w). due x \<le> due y"
      by (auto dest: next_due_Some)
    have "pending_debounce (fire x w) d v"
      by (rule pending_debounce_fire_removal [OF "1.prems"(1) l x(1,3)])
    from "1.IH" [OF Some this "1.prems"(2)] x fire_removal [OF l, of w] show ?thesis
      by (simp add: advance_Some [OF Some] max.assoc max_absorb2)
  qed
qed

lemma advance_fire:
  "pending_debounce w d v \<Longrightarrow> d \<le> t \<Longrightarrow>
   resolutions (advance t w) = resolutions w @ [(d, v)] \<and> debounces (advance t w) = [] \<and>
   now (advance t w) = max (now w) t"
proof (induction t w rule: advance.induct)
  case (1 t w)
  from "1.prems"(1) obtain y where y: "debounces w = [y]" "due y = d"
    "callback y = PlaceGraphView v" "layoutTimer w = Some (tid y)" "now w \<le> d"
    by (auto simp: pending_debounce_def)
  from y(1) have yin: "y \<in> set (timers w)"
    by (metis debounces_def filter_is_subset list.set_intros(1) subsetD)
  show ?case
  proof (cases "next_due t w")
    case None
    then have "earliest (timers w) = None \<or> (\<exists>z. earliest (timers w) = Some z \<and> t < due z)"
      by (auto simp: next_due_def split: option.splits if_splits)
    then show ?thesis
    proof
      assume "earliest (timers w) = None"
      with yin show ?thesis by (simp add: earliest_None)
    next
      assume "\<exists>z. earliest (timers w) = Some z \<and> t < due z"
      then obtain z where "earliest (timers w) = Some z" "t < due z" by auto
      with earliest_Some [of "timers w" z] yin y(2) "1.prems"(2) show ?thesis by auto
    qed
  next
    case (Some x)
    from Some have x: "x \<in> set (timers w)" "due x \<le> t" "\<forall>y\<in>set (timers w). due x \<le> due y"
      by (auto dest: next_due_Some)
    show ?thesis
    proof (cases "callback x")
      case (RemoveChild l)
      have "pending_debounce (fire x w) d v"
        by (rule pending_debounce_fire_removal [OF "1.prems"(1) RemoveChild x(1,3)])
      from "1.IH" [OF Some this "1.prems"(2)] x fire_removal [OF RemoveChild, of w] show ?thesis
        by (simp add: advance_Some [OF Some] max.assoc max_absorb2)
    next
      case (PlaceGraphView u)
      with x(1) have "x \<in> set (debounces w)" by (simp add: debounces_def)
      with y have xy: "x = y" by simp
      with y PlaceGraphView have u: "u = v" by simp
      have n: "now (fire x w) = max (now w) (due x)"
        using PlaceGraphView by (simp add: fire_def placeGraphView_fields)
      from fire_debounce [OF PlaceGraphView, of w] y xy u
      have f: "debounces (fire x w) = []" "resolutions (fire x w) = resolutions w @ [(d, v)]"
        by (simp_all add: max_absorb2)
      from advance_quiet [OF f(1), of t] f(2) n x(2) show ?thesis
        by (simp add: advance_Some [OF Some] max.assoc max_absorb2)
    qed
  qed
qed

lemma layout_change_restarts:
  assumes "activeView w = Some v"
    and "debounces w = [] \<or> (\<exists>d u. pending_debounce w d u)"
  shows "pending_debounce (layout_change w) (now w + quiet_window w) v"
    and "resolutions (layout_change w) = resolutions w"
    and "settings (layout_change w) = settings w"
    and "now (layout_change w) = now w"
proof -
  let ?w1 = "case layoutTimer w of None \<Rightarrow> w | Some t \<Rightarrow> clearTimeout t w"
  have cleared: "debounces ?w1 = []"
    using assms(2)
  proof
    assume "debounces w = []"
    then show ?thesis
      by (auto simp: debounces_def clearTimeout_def filter_empty_conv split: option.splits)
  next
    assume "\<exists>d u. pending_debounce w d u"
    then obtain x where x: "debounces w = [x]" "layoutTimer w = Some (tid x)"
      by (auto simp: pending_debounce_def)
    have "debounces (clearTimeout (tid x) w) = filter (\<lambda>y. tid y \<noteq> tid x) (debounces w)"
      by (simp add: debounces_def clearTimeout_def conj_commute)
    with x show ?thesis by simp
  qed
  have same: "now ?w1 = now w" "settings ?w1 = settings w" "fired ?w1 = fired w"
    by (simp_all add: clearTimeout_def split: option.splits)
  have lc: "layout_change w =
      ?w1\<lparr>timers := timers ?w1 @ [\<lparr>tid = nextTimer ?w1, due = now w + quiet_window w,
                                   callback = PlaceGraphView v\<rparr>],
          nextTimer := Suc (nextTimer ?w1), layoutTimer := Some (nextTimer ?w1)\<rparr>"
    using assms(1) same(1)
    by (simp add: layout_change_def Let_def setTimeout_def quiet_window_def)
  from cleared show "pending_debounce (layout_change w) (now w + quiet_window w) v"
    unfolding lc by (simp add: pending_debounce_def debounces_def same)
  show "resolutions (layout_change w) = resolutions w" "settings (layout_change w) = settings w"
    "now (layout_change w) = now w"
    unfolding lc by (simp_all add: resolutions_def same)
qed

lemma pending_debounce_activeView:
  "pending_debounce (w\<lparr>activeView := a\<rparr>) d v = pending_debounce w d v"
  by (simp add: pending_debounce_def debounces_def)

definition final_view :: "nat \<Rightarrow> (nat \<times> nat option) list \<Rightarrow> nat" where
  "final_view v rest = the (last (Some v # map snd rest))"

lemma final_view_simps:
  "final_view v [] = v"
  "final_view v ((gap, Some u) # rest) = final_view u rest"
  by (simp_all add: final_view_def)

lemma final_view_last: "final_view u rest = the (snd (last ((gap, Some u) # rest)))"
  by (simp add: final_view_def last_map)

lemma first_trigger:
  assumes "debounces w = [] \<or> (pending_debounce w d v \<and> gap < d - now w)"
  shows "pending_debounce (layout_change ((advance (now w + gap) w)\<lparr>activeView := Some u\<rparr>))
           (now w + gap + quiet_window w) u"
    and "resolutions (layout_change ((advance (now w + gap) w)\<lparr>activeView := Some u\<rparr>)) = resolutions w"
    and "settings (layout_change ((advance (now w + gap) w)\<lparr>activeView := Some u\<rparr>)) = settings w"
    and "now (layout_change ((advance (now w + gap) w)\<lparr>activeView := Some u\<rparr>)) = now w + gap"
proof -
  let ?w1 = "advance (now w + gap) w"
  let ?w2 = "?w1\<lparr>activeView := Some u\<rparr>"
  have 1: "(debounces ?w1 = [] \<or> (\<exists>d u. pending_debounce ?w1 d u)) \<and>
      resolutions ?w1 = resolutions w \<and> settings ?w1 = settings w \<and> now ?w1 = now w + gap"
    using assms
  proof
    assume "debounces w = []"
    from advance_quiet [OF this, of "now w + gap"] show ?thesis by simp
  next
    assume "pending_debounce w d v \<and> gap < d - now w"
    then have "pending_debounce w d v" "now w + gap < d" by auto
    from advance_before [OF this] show ?thesis by auto
  qed
  then have 2: "activeView ?w2 = Some u"
    "debounces ?w2 = [] \<or> (\<exists>d u. pending_debounce ?w2 d u)"
    by (auto simp: pending_debounce_activeView debounces_def)
  have w2: "now ?w2 = now w + gap" "quiet_window ?w2 = quiet_window w"
    "resolutions ?w2 = resolutions w" "settings ?w2 = settings w"
    using 1 by (simp_all add: quiet_window_def resolutions_def)
  from layout_change_restarts [OF 2] w2
  show "pending_debounce (layout_change ?w2) (now w + gap + quiet_window w) u"
    "resolutions (layout_change ?w2) = resolutions w"
    "settings (layout_change ?w2) = settings w"
    "now (layout_change ?w2) = now w + gap"
    by simp_all
qed

lemma burst_restarts:
  assumes "pending_debounce w (now w + q) v" and "quiet_window w = q"
    and "list_all (\<lambda>tr. snd tr \<noteq> None) rest"
    and "list_all (\<lambda>tr. fst tr < q) rest"
  shows "pending_debounce (burst rest w) (now (burst rest w) + q) (final_view v rest) \<and>
         resolutions (burst rest w) = resolutions w \<and>
         settings (burst rest w) = settings w \<and>
         now (burst rest w) = now w + sum_list (map fst rest)"
  using assms
proof (induction rest arbitrary: w v)
  case Nil
  then show ?case by (simp add: final_view_simps)
next
  case (Cons tr rest)
  obtain gap a where tr: "tr = (gap, a)" by (cases tr)
  with Cons.prems obtain u where u: "a = Some u" and gap: "gap < q" by auto
  let ?w3 = "layout_change ((advance (now w + gap) w)\<lparr>activeView := Some u\<rparr>)"
  have "debounces w = [] \<or> (pending_debounce w (now w + q) v \<and> gap < now w + q - now w)"
    using Cons.prems(1) gap by simp
  note 3 = first_trigger [OF this, of u]
  have p: "pending_debounce ?w3 (now ?w3 + q) u" "quiet_window ?w3 = q"
    using 3 Cons.prems(2) by (simp_all add: quiet_window_def)
  from Cons.prems have rest: "list_all (\<lambda>tr. snd tr \<noteq> None) rest"
    "list_all (\<lambda>tr. fst tr < q) rest"
    by simp_all
  note ih = Cons.IH [OF p rest]
  have step: "burst (tr # rest) w = burst rest ?w3"
    "final_view v (tr # rest) = final_view u rest"
    "sum_list (map fst (tr # rest)) = gap + sum_list (map fst rest)"
    by (simp_all add: tr u final_view_simps)
  have i1: "pending_debounce (burst rest ?w3) (now (burst rest ?w3) + q) (final_view u rest)"
    using ih by blast
  have i2: "resolutions (burst rest ?w3) = resolutions w"
    using ih 3(2) by simp
  have i3: "settings (burst rest ?w3) = settings w"
    using ih 3(3) by simp
  have i4: "now (burst rest ?w3) = now w + (gap + sum_list (map fst rest))"
    using ih 3(4) by simp
  show ?case
    unfolding step using i1 i2 i3 i4 by blast
qed

text \<open>
  Claim C4, as amended. Take a burst of at least one layout-change trigger, each of
  which finds an active Markdown view and each but the first coming less than the
  quiet window after the one before, from a state where no debounce timer is pending
  or the pending one is not yet due at the first trigger.
  No resolution runs during the burst; after every trigger one timer is pending,
  restarted for the view of that trigger; and when the quiet window has passed
  after the last trigger exactly one resolution has run, at that time, for the view
  that was active at the last trigger. A trigger that finds no active Markdown view
  is ignored: it neither cancels nor restarts the timer.
\<close>

theorem debounce_burst:
  assumes "triggers \<noteq> []"
    and "list_all (\<lambda>tr. snd tr \<noteq> None) triggers"
    and "list_all (\<lambda>tr. fst tr < quiet_window w) (tl triggers)"
    and "debounces w = [] \<or>
         (\<exists>d v. pending_debounce w d v \<and> now w + fst (hd triggers) < d)"
  shows "resolutions (burst triggers w) = resolutions w \<and>
         now (burst triggers w) = now w + sum_list (map fst triggers) \<and>
         pending_debounce (burst triggers w) (now (burst triggers w) + quiet_window w)
           (the (snd (last triggers))) \<and>
         resolutions (advance (now (burst triggers w) + quiet_window w) (burst triggers w)) =
           resolutions w @ [(now (burst triggers w) + quiet_window w, the (snd (last triggers)))] \<and>
         debounces (advance (now (burst triggers w) + quiet_window w) (burst triggers w)) = [] \<and>
         (\<forall>u. activeView u = None \<longrightarrow> layout_change u = u)"
proof -
  have ignored: "\<forall>u. activeView u = None \<longrightarrow> layout_change u = u"
    by (simp add: layout_change_def)
  from assms(1) obtain tr rest where t: "triggers = tr # rest" by (cases triggers) auto
  obtain gap a where tr: "tr = (gap, a)" by (cases tr)
  with t assms(2) obtain u where u: "a = Some u" by auto
  let ?w3 = "layout_change ((advance (now w + gap) w)\<lparr>activeView := Some u\<rparr>)"
  let ?q = "quiet_window w"
  have "\<exists>d v. debounces w = [] \<or> (pending_debounce w d v \<and> gap < d - now w)"
    using assms(4) by (auto simp: t tr less_diff_conv add.commute)
  then obtain d v
    where "debounces w = [] \<or> (pending_debounce w d v \<and> gap < d - now w)"
    by blast
  note 3 = first_trigger [OF this, of u]
  have p: "pending_debounce ?w3 (now ?w3 + ?q) u" "quiet_window ?w3 = ?q"
    using 3 by (simp_all add: quiet_window_def)
  from t assms(2,3) have rest: "list_all (\<lambda>tr. snd tr \<noteq> None) rest"
    "list_all (\<lambda>tr. fst tr < ?q) rest"
    by simp_all
  note b = burst_restarts [OF p rest]
  let ?wb = "burst triggers w"
  have wb: "?wb = burst rest ?w3" by (simp add: t tr u)
  have l: "final_view u rest = the (snd (last triggers))"
    unfolding t tr u by (rule final_view_last)
  have s: "sum_list (map fst triggers) = gap + sum_list (map fst rest)"
    by (simp add: t tr)
  have b1: "pending_debounce ?wb (now ?wb + ?q) (the (snd (last triggers)))"
    unfolding wb l [symmetric] using b by blast
  have b2: "resolutions ?wb = resolutions w"
    unfolding wb using b 3(2) by simp
  have b3: "now ?wb = now w + sum_list (map fst triggers)"
    unfolding wb s using b 3(4) by simp
  from advance_fire [OF b1 order_refl] b1 b2 b3 ignored show ?thesis by simp
qed

theorem debounce_burst_witness:
  "list_all (\<lambda>tr. snd tr \<noteq> None) [(0, Some 0), (50, Some 0), (79, Some (0::nat))] \<and>
   list_all (\<lambda>tr. fst tr < quiet_window one_note) [(50, Some 0), (79, Some (0::nat))] \<and>
   debounces one_note = [] \<and>
   resolutions (burst [(0, Some 0), (50, Some 0), (79, Some 0)] one_note) = [] \<and>
   resolutions (advance 209 (burst [(0, Some 0), (50, Some 0), (79, Some 0)] one_note)) = [(209, 0)]"
proof -
  have a: "[(0, Some 0), (50, Some 0), (79, Some (0::nat))] \<noteq> []"
    "list_all (\<lambda>tr. snd tr \<noteq> None) [(0, Some 0), (50, Some 0), (79, Some (0::nat))]"
    "list_all (\<lambda>tr. fst tr < quiet_window one_note) (tl [(0, Some 0), (50, Some 0), (79, Some (0::nat))])"
    "debounces one_note = []"
    by code_simp+
  have b: "quiet_window one_note = 80" "now one_note = 0" "resolutions one_note = []"
    by code_simp+
  from debounce_burst [OF a(1-3) disjI1 [OF a(4)]] a b show ?thesis
    by (elim conjE) (simp del: burst.simps)
qed

text \<open>
  The claim as first stated fails: a burst of one trigger that finds no active
  Markdown view runs no resolution; and in a burst of three triggers 50 ms apart
  (quiet window 80 ms) whose second finds no active Markdown view, the timer of the
  first fires at 80 ms, before the third trigger, so two resolutions run.
\<close>

theorem debounce_burst_counterexample:
  "resolutions (advance 80 (burst [(0, None)] one_note)) = [] \<and>
   now (burst [(0, Some 0), (50, None), (50, Some 0)] one_note) = 100 \<and>
   quiet_window one_note = 80 \<and>
   resolutions (advance 180 (burst [(0, Some 0), (50, None), (50, Some 0)] one_note)) =
     [(80, 0), (180, 0)]"
  by code_simp

subsection \<open>Teardown\<close>

text \<open>
  \<open>removals\<close> are the pending leaf-removal timers. The timers are consistent when
  the pending debounce timers are the ones that \<^verbatim>\<open>_layoutTimer\<close> names.
  \<open>detach_calls\<close> are the host calls of \<^verbatim>\<open>detach\<close>.
\<close>

definition removals :: "world \<Rightarrow> timer list" where
  "removals w = filter (\<lambda>x. \<not> is_debounce (callback x)) (timers w)"

definition timers_consistent :: "world \<Rightarrow> bool" where
  "timers_consistent w =
     list_all (\<lambda>x. is_debounce (callback x) = (layoutTimer w = Some (tid x))) (timers w)"

definition detach_calls :: "graph_view \<Rightarrow> host_call list" where
  "detach_calls gv = LeafDetach (leaf gv) # (if node gv = None then [] else [NodeRemove (leaf gv)])"

lemma detach_step:
  assumes "k < length (graphViews w)"
  shows "trace (detach k w) = trace w @ detach_calls (graphViews w ! k)"
    and "drop (Suc k) (graphViews (detach k w)) = drop (Suc k) (graphViews w)"
    and "length (graphViews (detach k w)) = length (graphViews w)"
    and "leafParent (detach k w) = leafParent w - {leaf (graphViews w ! k)}"
    and "timers (detach k w) = timers w" and "layoutTimer (detach k w) = layoutTimer w"
    and "fired (detach k w) = fired w"
  using assms
  by (simp_all add: detach_def Let_def call_def update_view_def detach_calls_def drop_update_cancel)

lemma fold_detach:
  "k \<le> length (graphViews w) \<Longrightarrow>
   trace (fold detach [0..<k] w) = trace w @ concat (map detach_calls (take k (graphViews w))) \<and>
   drop k (graphViews (fold detach [0..<k] w)) = drop k (graphViews w) \<and>
   length (graphViews (fold detach [0..<k] w)) = length (graphViews w) \<and>
   leafParent (fold detach [0..<k] w) = leafParent w - leaf ` set (take k (graphViews w)) \<and>
   timers (fold detach [0..<k] w) = timers w \<and>
   layoutTimer (fold detach [0..<k] w) = layoutTimer w \<and>
   fired (fold detach [0..<k] w) = fired w"
proof (induction k)
  case 0
  show ?case by simp
next
  case (Suc k)
  let ?w = "fold detach [0..<k] w"
  from Suc have ih: "trace ?w = trace w @ concat (map detach_calls (take k (graphViews w)))"
    "drop k (graphViews ?w) = drop k (graphViews w)"
    "length (graphViews ?w) = length (graphViews w)"
    "leafParent ?w = leafParent w - leaf ` set (take k (graphViews w))"
    "timers ?w = timers w" "layoutTimer ?w = layoutTimer w" "fired ?w = fired w"
    by simp_all
  from Suc.prems have k: "k < length (graphViews w)" "k < length (graphViews ?w)"
    by (simp_all add: ih)
  have "graphViews ?w ! k = hd (drop k (graphViews ?w))"
    using k by (simp add: hd_drop_conv_nth)
  also have "\<dots> = graphViews w ! k"
    using k by (simp add: ih hd_drop_conv_nth)
  finally have same: "graphViews ?w ! k = graphViews w ! k" .
  have d: "drop (Suc k) (graphViews ?w) = drop (Suc k) (graphViews w)"
    using ih(2) by (metis drop_Suc tl_drop)
  have f: "fold detach [0..<Suc k] w = detach k ?w" by simp
  show ?case
    unfolding f using detach_step [OF k(2)] ih k(1) d
    by (auto simp: same take_Suc_conv_app_nth)
qed

lemma clearTimeout_consistent:
  assumes "timers_consistent w" and "layoutTimer w = Some t"
  shows "timers (clearTimeout t w) = removals w"
proof -
  have "filter (\<lambda>x. tid x \<noteq> t) ts = filter (\<lambda>x. \<not> is_debounce (callback x)) ts"
    if "list_all (\<lambda>x. is_debounce (callback x) = (Some t = Some (tid x))) ts" for ts
    using that by (induction ts) auto
  with assms show ?thesis
    by (simp add: timers_consistent_def clearTimeout_def removals_def)
qed

lemma no_timer_consistent:
  assumes "timers_consistent w" and "layoutTimer w = None"
  shows "timers w = removals w"
proof -
  have "ts = filter (\<lambda>x. \<not> is_debounce (callback x)) ts"
    if "list_all (\<lambda>x. \<not> is_debounce (callback x)) ts" for ts
    using that by (induction ts) auto
  with assms show ?thesis
    by (simp add: timers_consistent_def removals_def)
qed

text \<open>
  Consistency holds in the loaded plugin and is kept by the handler of
  \<^verbatim>\<open>layout-change\<close>, by resolutions, by the toggle and by the timer queue, together
  with the freshness of the timer numbers.
\<close>

definition timers_wf :: "world \<Rightarrow> bool" where
  "timers_wf w =
     (timers_consistent w \<and> list_all (\<lambda>x. tid x < nextTimer w) (timers w) \<and>
      (\<forall>t. layoutTimer w = Some t \<longrightarrow> t < nextTimer w))"

lemma timers_wf_same:
  "timers w' = timers w \<Longrightarrow> nextTimer w' = nextTimer w \<Longrightarrow> layoutTimer w' = layoutTimer w \<Longrightarrow>
   timers_wf w' = timers_wf w"
  by (simp add: timers_wf_def timers_consistent_def)

lemma timers_wf_setTimeout_removal:
  "timers_wf w \<Longrightarrow> timers_wf (snd (setTimeout (RemoveChild l) t w))"
  by (auto simp: timers_wf_def timers_consistent_def setTimeout_def list_all_iff
        split: option.splits)

lemma timers_wf_setupLeaf: "timers_wf w \<Longrightarrow> timers_wf (setupLeaf i w)"
proof -
  have u: "timers_wf (update_view j f w') = timers_wf w'" for j f w'
    by (rule timers_wf_same) (simp_all add: update_view_def)
  have r: "timers_wf (removeChild l w') = timers_wf w'" for l w'
    by (rule timers_wf_same) (simp_all add: removeChild_def call_def)
  assume "timers_wf w"
  then show ?thesis
    by (simp add: setupLeaf_def Let_def u r timers_wf_setTimeout_removal
          split: setup_state.splits option.splits)
qed

lemma placeTo_timer_fields:
  "timers (placeTo i v opts w) = timers (setupLeaf i w)"
  "nextTimer (placeTo i v opts w) = nextTimer (setupLeaf i w)"
  "layoutTimer (placeTo i v opts w) = layoutTimer (setupLeaf i w)"
  unfolding placeTo_undisturbed Let_def
  by (simp_all add: update_view_def call_def split: option.splits)

lemma timers_wf_placeTo: "timers_wf w \<Longrightarrow> timers_wf (placeTo i v opts w)"
  using timers_wf_same [OF placeTo_timer_fields, of i v opts w] by (simp add: timers_wf_setupLeaf)

lemma timers_wf_getOrCreateGraphView:
  "timers_wf (snd (getOrCreateGraphView v w)) = timers_wf w"
  using getOrCreateGraphView_cases [of v w]
  by (auto simp: new_GraphView_def Let_def call_def timers_wf_def timers_consistent_def)

lemma timers_wf_placeGraphView: "timers_wf w \<Longrightarrow> timers_wf (placeGraphView v w)"
proof -
  have u: "timers_wf (update_view j f w') = timers_wf w'" for j f w'
    by (rule timers_wf_same) (simp_all add: update_view_def)
  assume "timers_wf w"
  then show ?thesis
    unfolding placeGraphView_def Let_def
    by (auto simp: u timers_wf_getOrCreateGraphView split: option.splits intro!: timers_wf_placeTo)
qed

lemma timers_wf_layout_change: "timers_wf w \<Longrightarrow> timers_wf (layout_change w)"
  by (auto simp: layout_change_def Let_def setTimeout_def clearTimeout_def timers_wf_def
        timers_consistent_def list_all_iff split: option.splits)

lemma timers_wf_fire:
  assumes "timers_wf w"
  shows "timers_wf (fire x w)"
proof -
  let ?w = "w\<lparr>timers := remove1 x (timers w), now := max (now w) (due x),
            fired := fired w @ [(max (now w) (due x), callback x)]\<rparr>"
  have "timers_wf ?w"
    using assms by (auto simp: timers_wf_def timers_consistent_def list_all_iff dest: notin_set_remove1)
  moreover have "timers_wf (removeChild l w') = timers_wf w'" for l w'
    by (rule timers_wf_same) (simp_all add: removeChild_def call_def)
  ultimately show ?thesis
    by (cases "callback x") (simp_all add: fire_def timers_wf_placeGraphView)
qed

lemma timers_wf_advance: "timers_wf w \<Longrightarrow> timers_wf (advance t w)"
proof (induction t w rule: advance.induct)
  case (1 t w)
  show ?case
  proof (cases "next_due t w")
    case None
    with "1.prems" show ?thesis
      by (simp add: advance_None timers_wf_def timers_consistent_def)
  next
    case (Some x)
    from "1.IH" [OF Some timers_wf_fire [OF "1.prems"]] show ?thesis
      by (simp add: advance_Some [OF Some])
  qed
qed

lemma timers_wf_burst: "timers_wf w \<Longrightarrow> timers_wf (burst triggers w)"
proof (induction triggers arbitrary: w)
  case Nil
  then show ?case by simp
next
  case (Cons tr triggers)
  have "timers_wf ((advance (now w + fst tr) w)\<lparr>activeView := snd tr\<rparr>)"
    using timers_wf_advance [OF Cons.prems, of "now w + fst tr"]
    by (simp add: timers_wf_def timers_consistent_def)
  then show ?case
    by (simp add: Cons.IH timers_wf_layout_change)
qed

lemma timers_wf_toggleCurrentNote: "timers_wf w \<Longrightarrow> timers_wf (toggleCurrentNote p w)"
proof -
  assume w: "timers_wf w"
  have "timers_wf (w\<lparr>settings := s, trace := tr\<rparr>)" for s tr
    using w by (simp add: timers_wf_def timers_consistent_def)
  then show ?thesis
    by (auto simp: toggleCurrentNote_def Let_def call_def split: option.splits
          intro!: timers_wf_placeGraphView)
qed

lemma timers_wf_loaded: "timers_wf (loaded shown active leaves)"
  by (simp add: timers_wf_def timers_consistent_def loaded_def)

lemma timers_wf_consistent: "timers_wf w \<Longrightarrow> timers_consistent w"
  by (simp add: timers_wf_def)

text \<open>
  Claim C5, as amended. \<^verbatim>\<open>onunload\<close> cancels the pending debounce timer and
  clears \<^verbatim>\<open>_layoutTimer\<close>, then detaches every pooled handle (its leaf, and its
  node if it has one) and empties the pool, firing nothing. It does not cancel a
  delayed leaf removal: the timers pending after teardown are exactly the leaf
  removals that were pending before it.
\<close>

theorem onunload_teardown:
  assumes "timers_consistent w"
  shows "layoutTimer (onunload w) = None \<and> debounces (onunload w) = [] \<and>
         graphViews (onunload w) = [] \<and>
         trace (onunload w) = trace w @ concat (map detach_calls (graphViews w)) \<and>
         leafParent (onunload w) = leafParent w - leaf ` set (graphViews w) \<and>
         timers (onunload w) = removals w \<and> fired (onunload w) = fired w"
proof -
  let ?w1 = "case layoutTimer w of None \<Rightarrow> w | Some t \<Rightarrow> (clearTimeout t w)\<lparr>layoutTimer := None\<rparr>"
  have 1: "timers ?w1 = removals w" "layoutTimer ?w1 = None" "graphViews ?w1 = graphViews w"
    "trace ?w1 = trace w" "leafParent ?w1 = leafParent w" "fired ?w1 = fired w"
  proof -
    show "timers ?w1 = removals w"
      using assms clearTimeout_consistent [OF assms] no_timer_consistent [OF assms]
      by (cases "layoutTimer w") simp_all
  qed (simp_all add: clearTimeout_def split: option.splits)
  have "debounces ?w1 = []"
    by (simp add: debounces_def 1(1) removals_def filter_empty_conv)
  moreover note fold_detach [of "length (graphViews ?w1)" ?w1]
  ultimately show ?thesis
    unfolding onunload_def Let_def by (simp add: 1 debounces_def)
qed

theorem onunload_teardown_witness:
  "timers_consistent (layout_change placed_note) \<and>
   debounces (layout_change placed_note) = [\<lparr>tid = 1, due = 80, callback = PlaceGraphView 0\<rparr>] \<and>
   debounces (onunload (layout_change placed_note)) = [] \<and>
   timers (onunload (layout_change placed_note)) = [\<lparr>tid = 0, due = 100, callback = RemoveChild 0\<rparr>] \<and>
   graphViews (onunload (layout_change placed_note)) = []"
proof -
  have a: "timers_consistent (layout_change placed_note)"
    by code_simp
  have b: "debounces (layout_change placed_note) = [\<lparr>tid = 1, due = 80, callback = PlaceGraphView 0\<rparr>]"
    "removals (layout_change placed_note) = [\<lparr>tid = 0, due = 100, callback = RemoveChild 0\<rparr>]"
    by code_simp+
  from onunload_teardown [OF a] a b show ?thesis
    by simp
qed

text \<open>
  The claim as first stated fails: the leaf removal that \<^verbatim>\<open>_setupLeaf\<close> set with
  the grace period of 100 ms is still pending when \<^verbatim>\<open>onunload\<close> has emptied the
  pool, and it fires at 100 ms, after the teardown.
\<close>

theorem onunload_teardown_counterexample:
  "timers placed_note = [\<lparr>tid = 0, due = 100, callback = RemoveChild 0\<rparr>] \<and>
   now placed_note = 0 \<and>
   timers (onunload placed_note) = [\<lparr>tid = 0, due = 100, callback = RemoveChild 0\<rparr>] \<and>
   graphViews (onunload placed_note) = [] \<and>
   fired (onunload placed_note) = [] \<and>
   fired (advance 100 (onunload placed_note)) = [(100, RemoveChild 0)]"
  by code_simp

end
